theory Spec2Isabelle
  imports Main "HOL-Library.Word"
begin

section \<open>Advent of Code leaderboard scanner: data model\<close>

text \<open>
  The Go program keeps one leaderboard document from the previous poll, downloads the
  current one, parses both and posts a notification for every new member and every newly
  completed puzzle part. This theory embeds \<^verbatim>\<open>main.go\<close>: the structs as records,
  nil-able pointers as \<open>option\<close>, run-time panics (index out of range, nil dereference)
  as the left summand of a sum type, and the calls the poll cycle makes to its
  collaborators as a list of steps.

  Go's \<^verbatim>\<open>int64\<close> time stamps are 64-bit words compared as signed values. Go's
  \<^verbatim>\<open>int\<close> is modelled by \<open>int\<close>: the program only counts list elements, adds one,
  and compares identifiers for equality, so no value leaves the 64-bit range.
\<close>

type_synonym int64 = "64 word"
type_synonym bytes = string

record completionPartData =
  GotStarAt :: int64
  StarIndex :: int64

record completionDayData =
  Part1 :: "completionPartData option"
  Part2 :: "completionPartData option"

record memberData =
  Name :: string
  CompletionDayLevel :: "completionDayData list"
  ID :: int
  LocalScore :: int
  GlobalScore :: int
  Stars :: int
  LastStarTimestamp :: int

record leaderboardData =
  Event :: string
  Members :: "memberData list"
  OwnerID :: int

text \<open>The zero value of \<^verbatim>\<open>completionDayData\<close>: both pointers nil.\<close>

definition emptyDay :: completionDayData where
  "emptyDay = \<lparr>Part1 = None, Part2 = None\<rparr>"

datatype panic = IndexOutOfRange | NilDereference

text \<open>\<^verbatim>\<open>xs[i]\<close> on a slice: a run-time panic outside \<open>0 \<le> i < len(xs)\<close>.\<close>

definition index :: "'a list \<Rightarrow> int \<Rightarrow> panic + 'a" where
  "index xs i = (if 0 \<le> i \<and> i < int (length xs) then Inr (xs ! nat i) else Inl IndexOutOfRange)"

text \<open>\<^verbatim>\<open>p.Field\<close> through a pointer: a run-time panic when the pointer is nil.\<close>

definition deref :: "'a option \<Rightarrow> panic + 'a" where
  "deref p = (case p of None \<Rightarrow> Inl NilDereference | Some v \<Rightarrow> Inr v)"

text \<open>Go's \<^verbatim>\<open>%\<close> truncates towards zero: the remainder has the sign of the dividend.\<close>

definition go_rem :: "int \<Rightarrow> int \<Rightarrow> int" where
  "go_rem a b = sgn a * (\<bar>a\<bar> mod \<bar>b\<bar>)"

section \<open>Helpers of the poll cycle\<close>

definition ordinals :: "string list" where
  "ordinals = [''th'', ''st'', ''nd'', ''rd'']"

definition getOrdinal :: "int \<Rightarrow> panic + string" where
  "getOrdinal n =
     (let v = go_rem n 100 in
      if v \<ge> 20 \<and> int (length ordinals) > go_rem (v - 20) 10
      then index ordinals (go_rem (v - 20) 10)
      else if int (length ordinals) > v then index ordinals v
      else index ordinals 0)"

text \<open>The loop of \<^verbatim>\<open>getTotalStars\<close>, with the running day index and the running \<^verbatim>\<open>total\<close> as \<open>acc\<close>.\<close>

fun totalStarsLoop :: "completionDayData list \<Rightarrow> int \<Rightarrow> int \<Rightarrow> int \<Rightarrow> int" where
  "totalStarsLoop [] dayIdx skipPart2OfDay acc = acc"
| "totalStarsLoop (day # days) dayIdx skipPart2OfDay acc =
     (let acc1 = (if Part1 day \<noteq> None then acc + 1 else acc);
          acc2 = (if Part2 day \<noteq> None \<and> skipPart2OfDay \<noteq> dayIdx then acc1 + 1 else acc1)
      in totalStarsLoop days (dayIdx + 1) skipPart2OfDay acc2)"

definition getTotalStars :: "memberData \<Rightarrow> int \<Rightarrow> int" where
  "getTotalStars member skipPart2OfDay =
     totalStarsLoop (CompletionDayLevel member) 0 skipPart2OfDay 0"

text \<open>
  The loop of \<^verbatim>\<open>getCompletionRank\<close> over the members of the leaderboard. A member
  with the subject's ID is skipped before its table is indexed.
\<close>

fun rankLoop :: "memberData list \<Rightarrow> int \<Rightarrow> int \<Rightarrow> int \<Rightarrow> int64 \<Rightarrow> int \<Rightarrow> panic + int" where
  "rankLoop [] inID dayIdx partNum targetTime numAhead = Inr numAhead"
| "rankLoop (member # rest) inID dayIdx partNum targetTime numAhead =
     (if ID member = inID then rankLoop rest inID dayIdx partNum targetTime numAhead
      else case index (CompletionDayLevel member) dayIdx of
        Inl e \<Rightarrow> Inl e
      | Inr d \<Rightarrow>
          (case (if partNum \<noteq> 1 then Part2 d else Part1 d) of
             None \<Rightarrow> rankLoop rest inID dayIdx partNum targetTime numAhead
           | Some part \<Rightarrow>
               rankLoop rest inID dayIdx partNum targetTime
                 (if GotStarAt part <s targetTime then numAhead + 1 else numAhead)))"

text \<open>
  \<^verbatim>\<open>getCompletionRank\<close> reads the subject's Part1 time stamp first, whatever
  \<^verbatim>\<open>partNum\<close> is, and replaces it by the Part2 time stamp when \<^verbatim>\<open>partNum != 1\<close>.
\<close>

definition getCompletionRank :: "leaderboardData \<Rightarrow> memberData \<Rightarrow> int \<Rightarrow> int \<Rightarrow> panic + int" where
  "getCompletionRank leaderboard inMember dayIdx partNum =
     (case index (CompletionDayLevel inMember) dayIdx of
        Inl e \<Rightarrow> Inl e
      | Inr d \<Rightarrow>
          (case deref (Part1 d) of
             Inl e \<Rightarrow> Inl e
           | Inr p1 \<Rightarrow>
               (case (if partNum \<noteq> 1
                      then (case deref (Part2 d) of Inl e \<Rightarrow> Inl e | Inr p2 \<Rightarrow> Inr (GotStarAt p2))
                      else Inr (GotStarAt p1)) of
                  Inl e \<Rightarrow> Inl e
                | Inr targetTime \<Rightarrow>
                    rankLoop (Members leaderboard) (ID inMember) dayIdx partNum targetTime 0)))"

fun arrayFind :: "'a list \<Rightarrow> ('a \<Rightarrow> bool) \<Rightarrow> 'a option" where
  "arrayFind [] pred = None"
| "arrayFind (v # rest) pred = (if pred v then Some v else arrayFind rest pred)"

section \<open>The member loop of the poll cycle\<close>

text \<open>
  What \<^verbatim>\<open>sendNotification\<close> is called with. The text is formatted from these values:
  the new-challenger message from \<^verbatim>\<open>member.Name\<close>; the completion message from
  \<^verbatim>\<open>member.Name\<close>, \<^verbatim>\<open>dayIdx+1\<close>, \<^verbatim>\<open>partNum\<close>, \<^verbatim>\<open>rank\<close>,
  \<^verbatim>\<open>ordinal\<close>, the time of day of \<^verbatim>\<open>part.GotStarAt\<close>, \<^verbatim>\<open>totalStars\<close> and
  \<^verbatim>\<open>totalStarsPlural\<close>. The member is kept whole (the failure log prints all of it).
  The year and the leaderboard code are the same in every message and are left out.
\<close>

datatype notification =
    is_NewChallenger: NewChallenger (who: memberData)
  | is_PartCompleted: PartCompleted (who: memberData) (dayNum: int) (part: int) (rank: int) (ordinal: string)
      (gotStarAt: int64) (totalStars: int) (totalStarsPlural: string)

text \<open>
  The outcome of a piece of the cycle: the notifications sent so far, and the panic that
  stopped it, if any. A failed delivery is only logged and changes nothing else.
\<close>

type_synonym sent = "notification list \<times> panic option"

definition andThen :: "sent \<Rightarrow> sent \<Rightarrow> sent" where
  "andThen a b =
     (case a of
        (out, Some e) \<Rightarrow> (out, Some e)
      | (out, None) \<Rightarrow> (case b of (out', r) \<Rightarrow> (out @ out', r)))"

text \<open>
  The closure \<^verbatim>\<open>s\<close> inside the day loop of \<^verbatim>\<open>refresh\<close>; its locals
  \<^verbatim>\<open>totalStars\<close>, \<^verbatim>\<open>totalStarsPlural\<close> and \<^verbatim>\<open>ordinal\<close> are \<open>stars\<close>,
  \<open>plural\<close> and \<open>ord\<close> here, and \<^verbatim>\<open>rank\<close> is \<open>numAhead + 1\<close>.
\<close>

definition refresh_s ::
  "leaderboardData \<Rightarrow> memberData \<Rightarrow> int \<Rightarrow> completionPartData \<Rightarrow> int \<Rightarrow> sent" where
  "refresh_s leaderboard member dayIdx p partNum =
     (let skipPart2OfDay = (if partNum = 1 then dayIdx else - 1);
          stars = getTotalStars member skipPart2OfDay;
          plural = (if stars = 1 then [] else ''s'')
      in case getCompletionRank leaderboard member dayIdx partNum of
           Inl e \<Rightarrow> ([], Some e)
         | Inr numAhead \<Rightarrow>
             (case getOrdinal (numAhead + 1) of
                Inl e \<Rightarrow> ([], Some e)
              | Inr ord \<Rightarrow>
                  ([PartCompleted member (dayIdx + 1) partNum (numAhead + 1) ord
                      (GotStarAt p) stars plural], None)))"

text \<open>
  One round of the day loop. \<^verbatim>\<open>lastMember.CompletionDayLevel[dayIdx]\<close> is evaluated
  only when the current part is not nil (\<^verbatim>\<open>&&\<close> short-circuits).
\<close>

definition dayStep ::
  "leaderboardData \<Rightarrow> memberData \<Rightarrow> memberData \<Rightarrow> int \<Rightarrow> completionDayData \<Rightarrow> sent" where
  "dayStep leaderboard member lastMember dayIdx day =
     andThen
       (case Part1 day of
          None \<Rightarrow> ([], None)
        | Some p \<Rightarrow>
            (case index (CompletionDayLevel lastMember) dayIdx of
               Inl e \<Rightarrow> ([], Some e)
             | Inr lastDay \<Rightarrow>
                 if Part1 lastDay = None then refresh_s leaderboard member dayIdx p 1
                 else ([], None)))
       (case Part2 day of
          None \<Rightarrow> ([], None)
        | Some p \<Rightarrow>
            (case index (CompletionDayLevel lastMember) dayIdx of
               Inl e \<Rightarrow> ([], Some e)
             | Inr lastDay \<Rightarrow>
                 if Part2 lastDay = None then refresh_s leaderboard member dayIdx p 2
                 else ([], None)))"

fun dayLoop ::
  "leaderboardData \<Rightarrow> memberData \<Rightarrow> memberData \<Rightarrow> int \<Rightarrow> completionDayData list \<Rightarrow> sent" where
  "dayLoop leaderboard member lastMember dayIdx [] = ([], None)"
| "dayLoop leaderboard member lastMember dayIdx (day # days) =
     andThen (dayStep leaderboard member lastMember dayIdx day)
       (dayLoop leaderboard member lastMember (dayIdx + 1) days)"

text \<open>One round of the loop over \<^verbatim>\<open>leaderboard.Members\<close>.\<close>

definition memberStep :: "leaderboardData \<Rightarrow> leaderboardData \<Rightarrow> memberData \<Rightarrow> sent" where
  "memberStep lastLeaderboard leaderboard member =
     (case arrayFind (Members lastLeaderboard) (\<lambda>m. ID m = ID member) of
        None \<Rightarrow> ([NewChallenger member], None)
      | Some lastMember \<Rightarrow>
          dayLoop leaderboard member lastMember 0 (CompletionDayLevel member))"

fun memberLoop :: "leaderboardData \<Rightarrow> leaderboardData \<Rightarrow> memberData list \<Rightarrow> sent" where
  "memberLoop lastLeaderboard leaderboard [] = ([], None)"
| "memberLoop lastLeaderboard leaderboard (member # rest) =
     andThen (memberStep lastLeaderboard leaderboard member)
       (memberLoop lastLeaderboard leaderboard rest)"

section \<open>Building a leaderboard from a document\<close>

text \<open>
  The document tree that \<^verbatim>\<open>fastjson\<close> hands to the program. A number keeps its text;
  an object keeps its entries in document order.
\<close>

datatype json =
    JNull | JTrue | JFalse
  | JNumber string
  | JString string
  | JArray "json list"
  | JObject "(string \<times> json) list"

text \<open>\<^verbatim>\<open>Object.Get\<close>: the value of the first entry with the key.\<close>

fun objectGet :: "(string \<times> json) list \<Rightarrow> string \<Rightarrow> json option" where
  "objectGet [] key = None"
| "objectGet ((k, v) # kvs) key = (if k = key then Some v else objectGet kvs key)"

text \<open>
  \<^verbatim>\<open>Value.GetObject(key)\<close>: the entries of the object stored under the key; nil when
  the value is not an object, has no such key, or holds something else under it.
\<close>

definition GetObject :: "json \<Rightarrow> string \<Rightarrow> (string \<times> json) list option" where
  "GetObject v key =
     (case v of
        JObject kvs \<Rightarrow>
          (case objectGet kvs key of Some (JObject inner) \<Rightarrow> Some inner | _ \<Rightarrow> None)
      | _ \<Rightarrow> None)"

text \<open>\<^verbatim>\<open>Value.Object()\<close> with its error dropped: nil when the value is not an object.\<close>

definition Object :: "json \<Rightarrow> (string \<times> json) list option" where
  "Object v = (case v of JObject kvs \<Rightarrow> Some kvs | _ \<Rightarrow> None)"

text \<open>
  The library and standard-library calls of \<^verbatim>\<open>buildLeaderboard\<close>, taken as
  parameters:
  \<^item> \<open>UnmarshalBoard\<close> is \<^verbatim>\<open>json.Unmarshal(body, &leaderboard)\<close>: the \<^verbatim>\<open>Event\<close> and
    \<^verbatim>\<open>OwnerID\<close> the struct holds after the call (\<^verbatim>\<open>Members\<close> is tagged \<^verbatim>\<open>"-"\<close> and
    stays nil), and whether an error came back;
  \<^item> \<open>ParseBytes\<close> is \<^verbatim>\<open>fastjson.ParseBytes\<close>, \<open>None\<close> for an error;
  \<^item> \<open>UnmarshalMember\<close> and \<open>UnmarshalPart\<close> are \<^verbatim>\<open>json.Unmarshal\<close> on the text of a
    value, into a zero struct, with the error dropped as the program drops it;
  \<^item> \<open>Atoi\<close> is \<^verbatim>\<open>strconv.Atoi\<close> with the error dropped.

  With them goes the encoding of the cache file: \<open>ReadBack\<close> is the \<^verbatim>\<open>last_body\<close>
  that \<^verbatim>\<open>main\<close> reads (\<^verbatim>\<open>GetStringBytes\<close>) from the text that
  \<^verbatim>\<open>json.Marshal\<close> writes for \<^verbatim>\<open>string(currBody)\<close>. The encoder replaces bytes
  that are not valid UTF-8, so this need not be the body itself.
\<close>

record codec =
  UnmarshalBoard :: "bytes \<Rightarrow> (string \<times> int) \<times> bool"
  ParseBytes :: "bytes \<Rightarrow> json option"
  UnmarshalMember :: "json \<Rightarrow> memberData"
  UnmarshalPart :: "json \<Rightarrow> completionPartData"
  Atoi :: "string \<Rightarrow> int"
  ReadBack :: "bytes \<Rightarrow> bytes"

datatype error = UnmarshalError | ParseError

text \<open>The innermost \<^verbatim>\<open>Visit\<close>: key "1" fills Part1, any other key fills Part2.\<close>

fun visitParts :: "codec \<Rightarrow> (string \<times> json) list \<Rightarrow> completionDayData \<Rightarrow> completionDayData" where
  "visitParts c [] memberCompletionObj = memberCompletionObj"
| "visitParts c ((completionPartKey, completionPartVal) # rest) memberCompletionObj =
     (let completionPart = UnmarshalPart c completionPartVal
      in visitParts c rest
           (if completionPartKey = ''1''
            then memberCompletionObj\<lparr>Part1 := Some completionPart\<rparr>
            else memberCompletionObj\<lparr>Part2 := Some completionPart\<rparr>))"

text \<open>
  The \<^verbatim>\<open>Visit\<close> over \<^verbatim>\<open>completion_day_level\<close>. The store into
  \<^verbatim>\<open>member.CompletionDayLevel[completionDayNum-1]\<close> panics outside the table.
  \<^verbatim>\<open>Visit\<close> on a nil object does nothing.
\<close>

fun visitDays ::
  "codec \<Rightarrow> (string \<times> json) list \<Rightarrow> completionDayData list \<Rightarrow> panic + completionDayData list" where
  "visitDays c [] table = Inr table"
| "visitDays c ((completionKey, completionDay) # rest) table =
     (let memberCompletionObj =
            (case Object completionDay of
               None \<Rightarrow> emptyDay
             | Some kvs \<Rightarrow> visitParts c kvs emptyDay);
          completionDayNum = Atoi c completionKey
      in if 0 \<le> completionDayNum - 1 \<and> completionDayNum - 1 < int (length table)
         then visitDays c rest (table[nat (completionDayNum - 1) := memberCompletionObj])
         else Inl IndexOutOfRange)"

definition visitMember :: "codec \<Rightarrow> json \<Rightarrow> panic + memberData" where
  "visitMember c memberVal =
     (let member = (UnmarshalMember c memberVal)\<lparr>CompletionDayLevel := replicate 25 emptyDay\<rparr>
      in case (case GetObject memberVal ''completion_day_level'' of
                 None \<Rightarrow> Inr (CompletionDayLevel member)
               | Some kvs \<Rightarrow> visitDays c kvs (CompletionDayLevel member)) of
           Inl e \<Rightarrow> Inl e
         | Inr table \<Rightarrow> Inr (member\<lparr>CompletionDayLevel := table\<rparr>))"

fun visitMembers ::
  "codec \<Rightarrow> (string \<times> json) list \<Rightarrow> memberData list \<Rightarrow> panic + memberData list" where
  "visitMembers c [] members = Inr members"
| "visitMembers c ((key, memberVal) # rest) members =
     (case visitMember c memberVal of
        Inl e \<Rightarrow> Inl e
      | Inr member \<Rightarrow> visitMembers c rest (members @ [member]))"

text \<open>
  \<^verbatim>\<open>buildLeaderboard\<close> returns the struct together with the error, as Go does; a
  panic is the left summand.
\<close>

definition buildLeaderboard :: "codec \<Rightarrow> bytes \<Rightarrow> panic + (leaderboardData \<times> error option)" where
  "buildLeaderboard c body =
     (case UnmarshalBoard c body of
        ((event, owner), marshalErr) \<Rightarrow>
          (let leaderboard = \<lparr>Event = event, Members = [], OwnerID = owner\<rparr>
           in if marshalErr then Inr (leaderboard, Some UnmarshalError)
              else case ParseBytes c body of
                None \<Rightarrow> Inr (leaderboard, Some ParseError)
              | Some jsonObj \<Rightarrow>
                  (case (case GetObject jsonObj ''members'' of
                           None \<Rightarrow> Inr []
                         | Some kvs \<Rightarrow> visitMembers c kvs []) of
                     Inl e \<Rightarrow> Inl e
                   | Inr members \<Rightarrow> Inr (leaderboard\<lparr>Members := members\<rparr>, None))))"

text \<open>The entries the two outer \<^verbatim>\<open>Visit\<close> calls walk through.\<close>

definition memberEntries :: "json \<Rightarrow> (string \<times> json) list" where
  "memberEntries jsonObj = (case GetObject jsonObj ''members'' of None \<Rightarrow> [] | Some kvs \<Rightarrow> kvs)"

definition dayEntries :: "json \<Rightarrow> (string \<times> json) list" where
  "dayEntries memberVal =
     (case GetObject memberVal ''completion_day_level'' of None \<Rightarrow> [] | Some kvs \<Rightarrow> kvs)"

section \<open>The poll cycle\<close>

text \<open>
  What \<^verbatim>\<open>refresh\<close> keeps between calls: the variables \<^verbatim>\<open>lastRead\<close> and
  \<^verbatim>\<open>lastBody\<close> of \<^verbatim>\<open>main\<close>, and the file \<^verbatim>\<open>.cache.json\<close>, held as the pair
  of \<^verbatim>\<open>last_read\<close> and \<^verbatim>\<open>last_body\<close> that \<^verbatim>\<open>main\<close> reads from it (\<open>None\<close>: no
  file, or one that does not decode).
\<close>

record state =
  lastRead :: int
  lastBody :: bytes
  cacheFile :: "(int \<times> bytes) option"

text \<open>
  What the outside world answers during one call: \<open>since\<close>, the nanoseconds that
  \<^verbatim>\<open>time.Since(time.Unix(lastRead, 0))\<close> returns for a \<^verbatim>\<open>lastRead\<close> (the clock and
  the time library decide it, wrap-around and saturation included); the download
  (\<open>None\<close> for an error); \<open>stamp\<close>, the \<^verbatim>\<open>time.Now().Unix()\<close> after it; whether
  encoding and writing the cache file succeed; and what a failed write leaves of the
  file.
\<close>

record world =
  since :: "int \<Rightarrow> int"
  download :: "bytes option"
  stamp :: int
  marshalOK :: bool
  writeOK :: bool
  leftover :: "(int \<times> bytes) option"

text \<open>The calls of one cycle, in order: log lines, collaborators and the parser.\<close>

datatype call =
    LogTooSoon | LogDownloadError | LogMarshalError | LogWriteError
  | LogCachedBodyError | LogDownloadedBodyError
  | CallDownload
  | is_WriteFile: CallWriteFile int bytes
  | is_Build: CallBuildLeaderboard bytes
  | is_Send: CallSendNotification (sentNotification: notification)

text \<open>
  \<^verbatim>\<open>main\<close> before the first cycle: the variables start from the cache file, or from
  zero values without one.
\<close>

definition initialState :: "(int \<times> bytes) option \<Rightarrow> state" where
  "initialState cache =
     (case cache of
        None \<Rightarrow> \<lparr>lastRead = 0, lastBody = [], cacheFile = None\<rparr>
      | Some (lr, lb) \<Rightarrow> \<lparr>lastRead = lr, lastBody = lb, cacheFile = cache\<rparr>)"

text \<open>
  Lines 139 to 148: stamp the read and save the downloaded body. \<open>CallWriteFile\<close>
  carries the two values whose encoding is written.
\<close>

definition saveCache :: "codec \<Rightarrow> world \<Rightarrow> bytes \<Rightarrow> state \<Rightarrow> state \<times> call list" where
  "saveCache c w currBody st =
     (let st1 = st\<lparr>lastRead := stamp w\<rparr>
      in if \<not> marshalOK w then (st1, [LogMarshalError])
         else if \<not> writeOK w
         then (st1\<lparr>cacheFile := leftover w\<rparr>, [CallWriteFile (stamp w) currBody, LogWriteError])
         else (st1\<lparr>cacheFile := Some (stamp w, ReadBack c currBody)\<rparr>,
               [CallWriteFile (stamp w) currBody]))"

text \<open>Lines 150 to 221: parse both bodies and run the member loop.\<close>

definition diffBodies :: "codec \<Rightarrow> bytes \<Rightarrow> bytes \<Rightarrow> call list \<times> panic option" where
  "diffBodies c lastBody0 currBody =
     (if length lastBody0 = 0 then ([], None)
      else case buildLeaderboard c lastBody0 of
        Inl e \<Rightarrow> ([CallBuildLeaderboard lastBody0], Some e)
      | Inr (lastLeaderboard, Some err) \<Rightarrow>
          ([CallBuildLeaderboard lastBody0, LogCachedBodyError], None)
      | Inr (lastLeaderboard, None) \<Rightarrow>
          (case buildLeaderboard c currBody of
             Inl e \<Rightarrow> ([CallBuildLeaderboard lastBody0, CallBuildLeaderboard currBody], Some e)
           | Inr (leaderboard, Some err) \<Rightarrow>
               ([CallBuildLeaderboard lastBody0, CallBuildLeaderboard currBody,
                 LogDownloadedBodyError], None)
           | Inr (leaderboard, None) \<Rightarrow>
               (case memberLoop lastLeaderboard leaderboard (Members leaderboard) of
                  (out, r) \<Rightarrow>
                    ([CallBuildLeaderboard lastBody0, CallBuildLeaderboard currBody] @
                     map CallSendNotification out, r))))"

text \<open>
  The test \<^verbatim>\<open>time.Since(time.Unix(lastRead, 0)) < time.Minute*14\<close>, in nanoseconds.
\<close>

definition tooSoon :: "world \<Rightarrow> state \<Rightarrow> bool" where
  "tooSoon w st \<longleftrightarrow> since w (lastRead st) < 14 * 60000000000"

text \<open>
  \<^verbatim>\<open>refresh\<close>. The deferred \<^verbatim>\<open>lastBody = currBody\<close> runs on every way out after
  the download, a panic included; until then the rest of the cycle reads the old
  \<^verbatim>\<open>lastBody\<close>.
\<close>

definition refresh :: "codec \<Rightarrow> world \<Rightarrow> state \<Rightarrow> state \<times> call list \<times> panic option" where
  "refresh c w st =
     (if tooSoon w st then (st, [LogTooSoon], None)
      else case download w of
        None \<Rightarrow> (st, [CallDownload, LogDownloadError], None)
      | Some currBody \<Rightarrow>
          (case saveCache c w currBody st of
             (st1, saved) \<Rightarrow>
               (case diffBodies c (lastBody st) currBody of
                  (calls, r) \<Rightarrow>
                    (st1\<lparr>lastBody := currBody\<rparr>, CallDownload # saved @ calls, r))))"

text \<open>
  The daemon: the scheduler calls \<^verbatim>\<open>refresh\<close> once per world, one call after the
  other, on the same variables. Whether the scheduler library recovers the panic of a job
  or lets it end the process is the parameter \<open>recovers\<close>. The result is the calls of
  each cycle.
\<close>

fun run :: "codec \<Rightarrow> bool \<Rightarrow> world list \<Rightarrow> state \<Rightarrow> call list list" where
  "run c recovers [] st = []"
| "run c recovers (w # ws) st =
     (case refresh c w st of
        (st', calls, None) \<Rightarrow> calls # run c recovers ws st'
      | (st', calls, Some e) \<Rightarrow> if recovers then calls # run c recovers ws st' else [calls])"

section \<open>Snapshots, ranks and suffixes as the specification describes them\<close>

text \<open>
  The invariants the specification states for a snapshot: every completion table has 25
  slots, and no day has Part2 without Part1. (The third, unique member IDs, is
  \<open>distinct (map ID (Members lb))\<close>.)
\<close>

definition tables25 :: "leaderboardData \<Rightarrow> bool" where
  "tables25 lb \<longleftrightarrow> (\<forall>m \<in> set (Members lb). length (CompletionDayLevel m) = 25)"

definition part1First :: "memberData \<Rightarrow> bool" where
  "part1First m \<longleftrightarrow> (\<forall>d \<in> set (CompletionDayLevel m). Part2 d \<noteq> None \<longrightarrow> Part1 d \<noteq> None)"

text \<open>The completion record of a member for a day index and a part (1, or anything else for 2).\<close>

definition completionRecord :: "memberData \<Rightarrow> int \<Rightarrow> int \<Rightarrow> completionPartData option" where
  "completionRecord m dayIdx partNum =
     (if partNum = 1 then Part1 (CompletionDayLevel m ! nat dayIdx)
      else Part2 (CompletionDayLevel m ! nat dayIdx))"

text \<open>
  The rank as the specification words it: the members other than the subject whose
  record for the same day and part exists and is strictly earlier than the time \<open>t\<close>.
\<close>

definition finishedEarlier ::
  "leaderboardData \<Rightarrow> memberData \<Rightarrow> int \<Rightarrow> int \<Rightarrow> int64 \<Rightarrow> memberData list" where
  "finishedEarlier lb subject dayIdx partNum t =
     [m \<leftarrow> Members lb. ID m \<noteq> ID subject \<and>
        (case completionRecord m dayIdx partNum of None \<Rightarrow> False | Some p \<Rightarrow> GotStarAt p <s t)]"

text \<open>
  The English rule as the specification words it: last two digits 11 to 13 give "th";
  otherwise the last digit decides.
\<close>

definition english_suffix :: "int \<Rightarrow> string" where
  "english_suffix n =
     (if n mod 100 \<in> {11, 12, 13} then ''th''
      else if n mod 10 = 1 then ''st''
      else if n mod 10 = 2 then ''nd''
      else if n mod 10 = 3 then ''rd''
      else ''th'')"

text \<open>The stars of a member: the populated parts of its table.\<close>

definition starCount :: "memberData \<Rightarrow> int" where
  "starCount m =
     int (length [d \<leftarrow> CompletionDayLevel m. Part1 d \<noteq> None]) +
     int (length [d \<leftarrow> CompletionDayLevel m. Part2 d \<noteq> None])"

text \<open>A part newly completed: populated in the current table, empty in the previous one.\<close>

definition newlyCompleted :: "memberData \<Rightarrow> memberData \<Rightarrow> nat \<Rightarrow> int \<Rightarrow> bool" where
  "newlyCompleted lastMember member d partNum \<longleftrightarrow>
     completionRecord member (int d) partNum \<noteq> None \<and>
     completionRecord lastMember (int d) partNum = None"

text \<open>
  A leaderboard holds the record of an ID for a day index and a part when every member
  with that ID has it populated.
\<close>

definition holdsRecord :: "leaderboardData \<Rightarrow> int \<Rightarrow> nat \<Rightarrow> int \<Rightarrow> bool" where
  "holdsRecord lb i d partNum \<longleftrightarrow>
     (\<forall>m \<in> set (Members lb). ID m = i \<longrightarrow> completionRecord m (int d) partNum \<noteq> None)"

text \<open>
  A list of calls notifies the completion of a part: it sends a completion notification
  about a member with the ID, for the day and the part.
\<close>

definition notifies :: "call list \<Rightarrow> int \<Rightarrow> nat \<Rightarrow> int \<Rightarrow> bool" where
  "notifies calls i d partNum \<longleftrightarrow>
     (\<exists>c \<in> set calls. is_Send c \<and> is_PartCompleted (sentNotification c) \<and>
        ID (who (sentNotification c)) = i \<and> dayNum (sentNotification c) = int d + 1 \<and>
        part (sentNotification c) = partNum)"

text \<open>
  The differ as the specification words it. For a member found in the previous snapshot,
  each of the 25 days in increasing order yields a Part1 event when Part1 is populated now
  and was empty before, then a Part2 event likewise; a member not found yields one
  new-member event and nothing else.
\<close>

definition completionNotice ::
  "leaderboardData \<Rightarrow> memberData \<Rightarrow> nat \<Rightarrow> int \<Rightarrow> completionPartData \<Rightarrow> notification" where
  "completionNotice lb member d partNum p =
     (let k = int (length (finishedEarlier lb member (int d) partNum (GotStarAt p))) + 1;
          stars = getTotalStars member (if partNum = 1 then int d else - 1)
      in PartCompleted member (int d + 1) partNum k (english_suffix k) (GotStarAt p) stars
           (if stars = 1 then [] else ''s''))"

definition newParts ::
  "leaderboardData \<Rightarrow> memberData \<Rightarrow> memberData \<Rightarrow> nat \<Rightarrow> notification list" where
  "newParts lb member lastMember d =
     (case Part1 (CompletionDayLevel member ! d) of
        None \<Rightarrow> []
      | Some p \<Rightarrow>
          if Part1 (CompletionDayLevel lastMember ! d) = None
          then [completionNotice lb member d 1 p] else []) @
     (case Part2 (CompletionDayLevel member ! d) of
        None \<Rightarrow> []
      | Some p \<Rightarrow>
          if Part2 (CompletionDayLevel lastMember ! d) = None
          then [completionNotice lb member d 2 p] else [])"

definition diffMember :: "leaderboardData \<Rightarrow> leaderboardData \<Rightarrow> memberData \<Rightarrow> notification list" where
  "diffMember previous current member =
     (case arrayFind (Members previous) (\<lambda>m. ID m = ID member) of
        None \<Rightarrow> [NewChallenger member]
      | Some lastMember \<Rightarrow> concat (map (newParts current member lastMember) [0..<25]))"

definition diff :: "leaderboardData \<Rightarrow> leaderboardData \<Rightarrow> notification list" where
  "diff previous current = concat (map (diffMember previous current) (Members current))"

section \<open>Sample leaderboards\<close>

definition star :: "int64 \<Rightarrow> completionPartData" where
  "star t = \<lparr>GotStarAt = t, StarIndex = 0\<rparr>"

definition plainMember :: "string \<Rightarrow> int \<Rightarrow> completionDayData list \<Rightarrow> memberData" where
  "plainMember n i table =
     \<lparr>Name = n, CompletionDayLevel = table, ID = i, LocalScore = 0, GlobalScore = 0,
      Stars = 0, LastStarTimestamp = 0\<rparr>"

definition board :: "memberData list \<Rightarrow> leaderboardData" where
  "board ms = \<lparr>Event = ''2023'', Members = ms, OwnerID = 1\<rparr>"

text \<open>A table whose only populated slot is day 5 (index 4).\<close>

definition day5Table :: "completionDayData \<Rightarrow> completionDayData list" where
  "day5Table d = replicate 4 emptyDay @ [d] @ replicate 20 emptyDay"

definition alice :: memberData where
  "alice = plainMember ''alice'' 1 (day5Table \<lparr>Part1 = Some (star 1701752400), Part2 = None\<rparr>)"

definition bob :: memberData where
  "bob = plainMember ''bob'' 2 (day5Table \<lparr>Part1 = Some (star 1701752410), Part2 = None\<rparr>)"

text \<open>
  Tables whose only populated slot is day 1 (index 0), and a pair of boards: amy had
  Part1 of day 1 and gains Part2; ben is new; cal gains both parts of day 1 at once.
\<close>

definition day1Table :: "completionDayData \<Rightarrow> completionDayData list" where
  "day1Table d = d # replicate 24 emptyDay"

definition amyBefore :: memberData where
  "amyBefore = plainMember ''amy'' 7 (day1Table \<lparr>Part1 = Some (star 1701406800), Part2 = None\<rparr>)"

definition amyAfter :: memberData where
  "amyAfter = plainMember ''amy'' 7
     (day1Table \<lparr>Part1 = Some (star 1701406800), Part2 = Some (star 1701407400)\<rparr>)"

definition ben :: memberData where
  "ben = plainMember ''ben'' 8 (day1Table \<lparr>Part1 = Some (star 1701407000), Part2 = None\<rparr>)"

definition calBefore :: memberData where
  "calBefore = plainMember ''cal'' 9 (day1Table emptyDay)"

definition calAfter :: memberData where
  "calAfter = plainMember ''cal'' 9
     (day1Table \<lparr>Part1 = Some (star 1701408000), Part2 = Some (star 1701409000)\<rparr>)"

definition previousBoard :: leaderboardData where
  "previousBoard = board [amyBefore, calBefore]"

definition currentBoard :: leaderboardData where
  "currentBoard = board [amyAfter, ben, calAfter]"

text \<open>
  The two boards as documents, with the trees a JSON parser yields for them, and a
  codec that answers on these documents (and on the empty object) as the libraries do:
  absent fields keep their zero values, numbers are read in decimal, and a body of ASCII
  bytes comes back from the cache file unchanged (the codec has no answer worth the name
  for another body).
\<close>

definition previousDoc :: bytes where
  \<open>previousDoc = ''{"event":"2023","owner_id":1,"members":{"7":{"name":"amy","id":7,"completion_day_level":{"1":{"1":{"get_star_ts":1701406800}}}},"9":{"name":"cal","id":9,"completion_day_level":{}}}}''\<close>

definition currentDoc :: bytes where
  \<open>currentDoc = ''{"event":"2023","owner_id":1,"members":{"7":{"name":"amy","id":7,"completion_day_level":{"1":{"1":{"get_star_ts":1701406800},"2":{"get_star_ts":1701407400}}}},"8":{"name":"ben","id":8,"completion_day_level":{"1":{"1":{"get_star_ts":1701407000}}}},"9":{"name":"cal","id":9,"completion_day_level":{"1":{"1":{"get_star_ts":1701408000},"2":{"get_star_ts":1701409000}}}}}}''\<close>

definition starTree :: "string \<Rightarrow> json" where
  "starTree t = JObject [(''get_star_ts'', JNumber t)]"

definition memberTree :: "string \<Rightarrow> string \<Rightarrow> (string \<times> json) list \<Rightarrow> json" where
  "memberTree n i days =
     JObject [(''name'', JString n), (''id'', JNumber i), (''completion_day_level'', JObject days)]"

definition boardTree :: "(string \<times> json) list \<Rightarrow> json" where
  "boardTree ms =
     JObject [(''event'', JString ''2023''), (''owner_id'', JNumber ''1''), (''members'', JObject ms)]"

definition previousTree :: json where
  "previousTree = boardTree
     [(''7'', memberTree ''amy'' ''7'' [(''1'', JObject [(''1'', starTree ''1701406800'')])]),
      (''9'', memberTree ''cal'' ''9'' [])]"

definition currentTree :: json where
  "currentTree = boardTree
     [(''7'', memberTree ''amy'' ''7''
         [(''1'', JObject [(''1'', starTree ''1701406800''), (''2'', starTree ''1701407400'')])]),
      (''8'', memberTree ''ben'' ''8'' [(''1'', JObject [(''1'', starTree ''1701407000'')])]),
      (''9'', memberTree ''cal'' ''9''
         [(''1'', JObject [(''1'', starTree ''1701408000''), (''2'', starTree ''1701409000'')])])]"

fun decimal :: "string \<Rightarrow> int \<Rightarrow> int option" where
  "decimal [] acc = Some acc"
| "decimal (ch # cs) acc =
     (let v = (of_char ch :: int)
      in if 48 \<le> v \<and> v \<le> 57 then decimal cs (10 * acc + (v - 48)) else None)"

text \<open>
  \<^verbatim>\<open>strconv.Atoi\<close> with the error dropped: an optional sign and decimal digits; 0 on a
  syntax error, the nearest 64-bit value on a range error.
\<close>

definition decimalAtoi :: "string \<Rightarrow> int" where
  "decimalAtoi s =
     (let (neg, ds) = (case s of
                         [] \<Rightarrow> (False, [])
                       | ch # r \<Rightarrow>
                           if ch = CHR ''-'' then (True, r)
                           else if ch = CHR ''+'' then (False, r) else (False, s))
      in if ds = [] then 0
         else case decimal ds 0 of
           None \<Rightarrow> 0
         | Some n \<Rightarrow> max (- (2 ^ 63)) (min (2 ^ 63 - 1) (if neg then - n else n)))"

definition numberAt :: "(string \<times> json) list \<Rightarrow> string \<Rightarrow> int" where
  "numberAt kvs key = (case objectGet kvs key of Some (JNumber t) \<Rightarrow> decimalAtoi t | _ \<Rightarrow> 0)"

definition stringAt :: "(string \<times> json) list \<Rightarrow> string \<Rightarrow> string" where
  "stringAt kvs key = (case objectGet kvs key of Some (JString t) \<Rightarrow> t | _ \<Rightarrow> [])"

definition sampleMember :: "json \<Rightarrow> memberData" where
  "sampleMember v =
     (let kvs = (case v of JObject kvs \<Rightarrow> kvs | _ \<Rightarrow> [])
      in \<lparr>Name = stringAt kvs ''name'', CompletionDayLevel = [], ID = numberAt kvs ''id'',
          LocalScore = numberAt kvs ''local_score'', GlobalScore = numberAt kvs ''global_score'',
          Stars = numberAt kvs ''stars'', LastStarTimestamp = numberAt kvs ''last_star_ts''\<rparr>)"

definition samplePart :: "json \<Rightarrow> completionPartData" where
  "samplePart v =
     (let kvs = (case v of JObject kvs \<Rightarrow> kvs | _ \<Rightarrow> [])
      in \<lparr>GotStarAt = of_int (numberAt kvs ''get_star_ts''),
          StarIndex = of_int (numberAt kvs ''star_index'')\<rparr>)"

definition sampleCodec :: codec where
  "sampleCodec =
     \<lparr>UnmarshalBoard = (\<lambda>b. if b = previousDoc \<or> b = currentDoc then ((''2023'', 1), False)
                             else if b = ''{}'' then (([], 0), False) else (([], 0), True)),
      ParseBytes = (\<lambda>b. if b = previousDoc then Some previousTree
                         else if b = currentDoc then Some currentTree
                         else if b = ''{}'' then Some (JObject []) else None),
      UnmarshalMember = sampleMember,
      UnmarshalPart = samplePart,
      Atoi = decimalAtoi,
      ReadBack = (\<lambda>b. if list_all (\<lambda>ch. (of_char ch :: nat) < 128) b then b else [])\<rparr>"

text \<open>
  The time library at the clock second \<open>now\<close>, for a \<^verbatim>\<open>lastRead\<close> near it: the
  difference in nanoseconds, kept within the 64 bits of a duration.
\<close>

definition sinceAt :: "int \<Rightarrow> int \<Rightarrow> int" where
  "sinceAt now lr = max (- (2 ^ 63)) (min (2 ^ 63 - 1) ((now - lr) * 1000000000))"

definition pollWorld :: "int \<Rightarrow> bytes \<Rightarrow> world" where
  "pollWorld now body = \<lparr>since = sinceAt now, download = Some body, stamp = now + 1,
     marshalOK = True, writeOK = True, leftover = None\<rparr>"

text \<open>A first run: no cache file, and a download of the current document.\<close>

definition firstWorld :: world where
  "firstWorld = pollWorld 1701410000 currentDoc"

text \<open>
  A cached body that is no leaderboard (the site answers an expired session with a
  page), and later polls a quarter of an hour apart: one that gets the page again, and
  two that get the current document.
\<close>

definition corruptState :: state where
  "corruptState = initialState (Some (1701400000, ''<!DOCTYPE html>''))"

definition pageWorld :: world where
  "pageWorld = pollWorld 1701410900 ''<!DOCTYPE html>''"

definition secondWorld :: world where
  "secondWorld = pollWorld 1701411800 currentDoc"

definition thirdWorld :: world where
  "thirdWorld = pollWorld 1701412700 currentDoc"

section \<open>Indexing and ordinals\<close>

lemma go_rem_pos: "0 \<le> a \<Longrightarrow> 0 < b \<Longrightarrow> go_rem a b = a mod b"
  by (cases "a = 0") (simp_all add: go_rem_def)

lemma index_ordinals:
  "index ordinals 0 = Inr ''th''" "index ordinals 1 = Inr ''st''"
  "index ordinals 2 = Inr ''nd''" "index ordinals 3 = Inr ''rd''"
  by (simp_all add: index_def ordinals_def)

lemma index_in_range: "0 \<le> i \<Longrightarrow> i < int (length xs) \<Longrightarrow> index xs i = Inr (xs ! nat i)"
  by (simp add: index_def)

lemma length_ordinals: "int (length ordinals) = 4"
  by (simp add: ordinals_def)

text \<open>The table lookup on a value below 4.\<close>

lemma index_ordinals_digit:
  assumes "0 \<le> w" "w < 4"
  shows "index ordinals w =
    Inr (if w = 1 then ''st'' else if w = 2 then ''nd'' else if w = 3 then ''rd'' else ''th'')"
proof -
  from assms have "w = 0 \<or> w = 1 \<or> w = 2 \<or> w = 3" by arith
  then show ?thesis by (elim disjE) (simp_all add: index_ordinals)
qed

lemma getOrdinal_pos:
  assumes "0 < n"
  shows "getOrdinal n = Inr (english_suffix n)"
proof -
  define v where "v = n mod 100"
  have v: "0 \<le> v" "v < 100" and rem: "go_rem n 100 = v" and d: "v mod 10 = n mod 10"
    using assms by (simp_all add: v_def go_rem_pos mod_mod_cancel)
  show ?thesis
  proof (cases "v < 20")
    case True
    show ?thesis
    proof (cases "v < 4")
      case True
      then have "n mod 10 = v" using d v(1) by simp
      moreover have "v \<noteq> 11" "v \<noteq> 12" "v \<noteq> 13" using True by simp_all
      ultimately show ?thesis
        using True v(1) \<open>v < 20\<close>
        by (simp add: getOrdinal_def rem length_ordinals index_ordinals_digit
            english_suffix_def v_def[symmetric])
    next
      case False
      have "(v = 11 \<or> v = 12 \<or> v = 13) \<or> (v mod 10 \<noteq> 1 \<and> v mod 10 \<noteq> 2 \<and> v mod 10 \<noteq> 3)"
        using False \<open>v < 20\<close> by presburger
      then show ?thesis
        using False \<open>v < 20\<close>
        by (auto simp add: getOrdinal_def rem length_ordinals index_ordinals
            english_suffix_def v_def[symmetric] d[symmetric])
    qed
  next
    case False
    define w where "w = (v - 20) mod 10"
    have w: "go_rem (v - 20) 10 = w" "0 \<le> w" "w < 10"
      using False by (simp_all add: w_def go_rem_pos)
    have wn: "w = n mod 10"
      unfolding w_def d[symmetric] by presburger
    have nv: "v \<noteq> 11" "v \<noteq> 12" "v \<noteq> 13" using False by simp_all
    show ?thesis
    proof (cases "w < 4")
      case True
      then show ?thesis
        using False w(2) nv
        by (simp add: getOrdinal_def rem length_ordinals w(1) index_ordinals_digit
            english_suffix_def v_def[symmetric] wn[symmetric])
    next
      case large: False
      then have "w \<noteq> 1" "w \<noteq> 2" "w \<noteq> 3" by simp_all
      then show ?thesis
        using False large nv
        by (simp add: getOrdinal_def rem length_ordinals w(1) index_ordinals
            english_suffix_def v_def[symmetric] wn[symmetric])
    qed
  qed
qed

text \<open>
  C8. For every positive \<open>n\<close>, \<^verbatim>\<open>getOrdinal\<close> returns (without a panic) the suffix of
  the English ordinal rule: "th" when the last two digits are 11, 12 or 13; otherwise
  "st", "nd", "rd" for a last digit 1, 2, 3, and "th" for any other.
\<close>

theorem getOrdinal_english_rule:
  "0 < n \<Longrightarrow> getOrdinal n = Inr (english_suffix n)"
  by (rule getOrdinal_pos)

theorem getOrdinal_english_rule_witness:
  "getOrdinal 1 = Inr ''st'' \<and> getOrdinal 2 = Inr ''nd'' \<and> getOrdinal 3 = Inr ''rd'' \<and>
   getOrdinal 4 = Inr ''th'' \<and> getOrdinal 11 = Inr ''th'' \<and> getOrdinal 12 = Inr ''th'' \<and>
   getOrdinal 13 = Inr ''th'' \<and> getOrdinal 21 = Inr ''st'' \<and> getOrdinal 101 = Inr ''st''"
  using getOrdinal_english_rule [of 1] getOrdinal_english_rule [of 2]
    getOrdinal_english_rule [of 3] getOrdinal_english_rule [of 4]
    getOrdinal_english_rule [of 11] getOrdinal_english_rule [of 12]
    getOrdinal_english_rule [of 13] getOrdinal_english_rule [of 21]
    getOrdinal_english_rule [of 101]
  by (simp add: english_suffix_def)

section \<open>The completion rank\<close>

lemma rankLoop_count:
  assumes "\<forall>m \<in> set ms. ID m \<noteq> inID \<longrightarrow> 0 \<le> dayIdx \<and> dayIdx < int (length (CompletionDayLevel m))"
  shows "rankLoop ms inID dayIdx partNum t acc =
     Inr (acc + int (length [m \<leftarrow> ms. ID m \<noteq> inID \<and>
        (case completionRecord m dayIdx partNum of None \<Rightarrow> False | Some p \<Rightarrow> GotStarAt p <s t)]))"
  using assms
proof (induction ms arbitrary: acc)
  case Nil
  then show ?case by simp
next
  case (Cons m ms)
  have IH: "rankLoop ms inID dayIdx partNum t a =
     Inr (a + int (length [m \<leftarrow> ms. ID m \<noteq> inID \<and>
        (case completionRecord m dayIdx partNum of None \<Rightarrow> False | Some p \<Rightarrow> GotStarAt p <s t)]))" for a
    using Cons.prems by (intro Cons.IH) simp
  show ?case
  proof (cases "ID m = inID")
    case True
    then show ?thesis by (simp add: IH)
  next
    case False
    with Cons.prems have "index (CompletionDayLevel m) dayIdx = Inr (CompletionDayLevel m ! nat dayIdx)"
      by (simp add: index_in_range)
    moreover have "(if partNum \<noteq> 1 then Part2 (CompletionDayLevel m ! nat dayIdx)
        else Part1 (CompletionDayLevel m ! nat dayIdx)) = completionRecord m dayIdx partNum"
      by (simp add: completionRecord_def)
    ultimately show ?thesis using False
      by (cases "completionRecord m dayIdx partNum") (simp_all add: IH)
  qed
qed

lemma getCompletionRank_eq:
  assumes tabs: "tables25 lb"
    and day: "0 \<le> dayIdx" "dayIdx < 25"
    and len: "length (CompletionDayLevel subject) = 25"
    and p1: "partNum \<noteq> 1 \<Longrightarrow> Part1 (CompletionDayLevel subject ! nat dayIdx) \<noteq> None"
    and present: "completionRecord subject dayIdx partNum = Some r"
  shows "getCompletionRank lb subject dayIdx partNum =
     Inr (int (length (finishedEarlier lb subject dayIdx partNum (GotStarAt r))))"
proof -
  have idx: "index (CompletionDayLevel subject) dayIdx = Inr (CompletionDayLevel subject ! nat dayIdx)"
    using day len by (simp add: index_in_range)
  have loop: "rankLoop (Members lb) (ID subject) dayIdx partNum (GotStarAt r) 0 =
     Inr (int (length (finishedEarlier lb subject dayIdx partNum (GotStarAt r))))"
    unfolding finishedEarlier_def
    using rankLoop_count[of "Members lb" "ID subject" dayIdx partNum "GotStarAt r" 0] tabs day
    by (simp add: tables25_def)
  show ?thesis
  proof (cases "partNum = 1")
    case True
    with present loop idx show ?thesis
      by (simp add: getCompletionRank_def completionRecord_def deref_def)
  next
    case False
    with p1 obtain q where "Part1 (CompletionDayLevel subject ! nat dayIdx) = Some q" by auto
    with False present loop idx show ?thesis
      by (simp add: getCompletionRank_def completionRecord_def deref_def)
  qed
qed

lemma part1First_nth:
  "part1First m \<Longrightarrow> i < length (CompletionDayLevel m) \<Longrightarrow>
   Part2 (CompletionDayLevel m ! i) \<noteq> None \<Longrightarrow> Part1 (CompletionDayLevel m ! i) \<noteq> None"
  by (simp add: part1First_def)

lemma refresh_s_sent:
  assumes tabs: "tables25 lb"
    and day: "0 \<le> dayIdx" "dayIdx < 25"
    and len: "length (CompletionDayLevel member) = 25"
    and p1: "partNum \<noteq> 1 \<Longrightarrow> Part1 (CompletionDayLevel member ! nat dayIdx) \<noteq> None"
    and present: "completionRecord member dayIdx partNum = Some r"
  shows "refresh_s lb member dayIdx p partNum =
     ([PartCompleted member (dayIdx + 1) partNum
         (int (length (finishedEarlier lb member dayIdx partNum (GotStarAt r))) + 1)
         (english_suffix (int (length (finishedEarlier lb member dayIdx partNum (GotStarAt r))) + 1))
         (GotStarAt p)
         (getTotalStars member (if partNum = 1 then dayIdx else - 1))
         (if getTotalStars member (if partNum = 1 then dayIdx else - 1) = 1 then [] else ''s'')],
      None)"
proof -
  have "getOrdinal (int (length (finishedEarlier lb member dayIdx partNum (GotStarAt r))) + 1) =
      Inr (english_suffix (int (length (finishedEarlier lb member dayIdx partNum (GotStarAt r))) + 1))"
    by (rule getOrdinal_pos) simp
  then show ?thesis
    unfolding refresh_s_def Let_def
    by (simp add: getCompletionRank_eq [OF tabs day len p1 present])
qed

text \<open>
  C1. In a leaderboard whose tables have 25 slots, for a member of it, a day index 0..24
  and part 1 or 2 such that the member's record for that day and part is present (on a
  table without a Part2 before Part1), \<^verbatim>\<open>getCompletionRank\<close> returns the number of
  members with a different ID whose record for the same day and part is present and
  strictly earlier; the notification that the closure \<^verbatim>\<open>s\<close> sends carries that
  number plus one as the rank.
\<close>

theorem getCompletionRank_counts_earlier:
  assumes "tables25 lb" and "subject \<in> set (Members lb)" and "part1First subject"
    and "0 \<le> dayIdx" and "dayIdx < 25" and "partNum = 1 \<or> partNum = 2"
    and "completionRecord subject dayIdx partNum = Some r"
  shows "getCompletionRank lb subject dayIdx partNum =
           Inr (int (length (finishedEarlier lb subject dayIdx partNum (GotStarAt r)))) \<and>
         map rank (fst (refresh_s lb subject dayIdx r partNum)) =
           [int (length (finishedEarlier lb subject dayIdx partNum (GotStarAt r))) + 1] \<and>
         snd (refresh_s lb subject dayIdx r partNum) = None"
proof -
  have len: "length (CompletionDayLevel subject) = 25"
    using assms(1,2) by (simp add: tables25_def)
  have p1: "Part1 (CompletionDayLevel subject ! nat dayIdx) \<noteq> None" if "partNum \<noteq> 1"
  proof -
    from that assms(6,7) have "Part2 (CompletionDayLevel subject ! nat dayIdx) \<noteq> None"
      by (auto simp: completionRecord_def)
    moreover have "nat dayIdx < length (CompletionDayLevel subject)"
      using len assms(4,5) by simp
    ultimately show ?thesis using assms(3) by (rule_tac part1First_nth)
  qed
  show ?thesis
    using getCompletionRank_eq [OF assms(1,4,5) len p1 assms(7)]
      refresh_s_sent [OF assms(1,4,5) len p1 assms(7)]
    by simp
qed

lemma day5Table_length: "length (day5Table d) = 25"
  by (simp add: day5Table_def)

lemma day5Table_4: "day5Table d ! 4 = d"
proof -
  have "day5Table d ! length (replicate 4 emptyDay) = d"
    unfolding day5Table_def by (simp only: nth_append_length append_Cons)
  then show ?thesis by simp
qed

lemma sample_records:
  "completionRecord alice 4 1 = Some (star 1701752400)"
  "completionRecord bob 4 1 = Some (star 1701752410)"
  by (simp_all add: completionRecord_def alice_def bob_def plainMember_def day5Table_4)

lemma sample_tables25: "tables25 (board [alice, bob])"
  by (simp add: tables25_def board_def alice_def bob_def plainMember_def day5Table_length)

lemma part1First_day5: "Part2 d = None \<Longrightarrow> part1First (plainMember n i (day5Table d))"
  by (auto simp: part1First_def plainMember_def day5Table_def emptyDay_def)

lemma sample_earlier:
  "finishedEarlier (board [alice, bob]) alice 4 1 1701752400 = []"
  "finishedEarlier (board [alice, bob]) bob 4 1 1701752410 = [alice]"
  by (simp_all add: finishedEarlier_def board_def sample_records)
     (simp_all add: alice_def bob_def plainMember_def star_def)

theorem getCompletionRank_counts_earlier_witness:
  "getCompletionRank (board [alice, bob]) alice 4 1 = Inr 0 \<and>
   getCompletionRank (board [alice, bob]) bob 4 1 = Inr 1 \<and>
   map rank (fst (refresh_s (board [alice, bob]) alice 4 (star 1701752400) 1)) = [1] \<and>
   map rank (fst (refresh_s (board [alice, bob]) bob 4 (star 1701752410) 1)) = [2]"
proof -
  have a: "alice \<in> set (Members (board [alice, bob]))" and b: "bob \<in> set (Members (board [alice, bob]))"
    by (simp_all add: board_def)
  have pa: "part1First alice" and pb: "part1First bob"
    by (simp_all add: alice_def bob_def part1First_day5)
  show ?thesis
    using getCompletionRank_counts_earlier [OF sample_tables25 a pa _ _ _ sample_records(1)]
      getCompletionRank_counts_earlier [OF sample_tables25 b pb _ _ _ sample_records(2)]
    by (simp add: sample_earlier star_def)
qed

text \<open>
  Why the table must not have a Part2 before Part1: the Part1 time stamp is read first,
  so a nil Part1 panics whatever part is asked for.
\<close>

lemma getCompletionRank_nil_part1:
  assumes "0 \<le> dayIdx" and "dayIdx < int (length (CompletionDayLevel inMember))"
    and "Part1 (CompletionDayLevel inMember ! nat dayIdx) = None"
  shows "getCompletionRank lb inMember dayIdx partNum = Inl NilDereference"
  using assms by (simp add: getCompletionRank_def index_def deref_def)

section \<open>The member loop computes the differ of the specification\<close>

lemma andThen_simps:
  "andThen (out, Some e) b = (out, Some e)"
  "andThen (out, None) (out', r) = (out @ out', r)"
  by (simp_all add: andThen_def)

lemma refresh_s_notice:
  assumes tabs: "tables25 lb"
    and d: "d < 25"
    and len: "length (CompletionDayLevel member) = 25"
    and p1: "partNum \<noteq> 1 \<Longrightarrow> Part1 (CompletionDayLevel member ! d) \<noteq> None"
    and present: "completionRecord member (int d) partNum = Some p"
  shows "refresh_s lb member (int d) p partNum = ([completionNotice lb member d partNum p], None)"
proof -
  have "refresh_s lb member (int d) p partNum =
     ([PartCompleted member (int d + 1) partNum
         (int (length (finishedEarlier lb member (int d) partNum (GotStarAt p))) + 1)
         (english_suffix (int (length (finishedEarlier lb member (int d) partNum (GotStarAt p))) + 1))
         (GotStarAt p)
         (getTotalStars member (if partNum = 1 then int d else - 1))
         (if getTotalStars member (if partNum = 1 then int d else - 1) = 1 then [] else ''s'')],
      None)"
    using d p1 by (intro refresh_s_sent [OF tabs _ _ len _ present]) simp_all
  then show ?thesis by (simp add: completionNotice_def Let_def)
qed

lemma arrayFind_Some: "arrayFind xs P = Some x \<Longrightarrow> x \<in> set xs \<and> P x"
  by (induction xs) (auto split: if_splits)

lemma arrayFind_None: "arrayFind xs P = None \<longleftrightarrow> (\<forall>x \<in> set xs. \<not> P x)"
  by (induction xs) auto

lemma dayStep_newParts:
  assumes tabs: "tables25 lb"
    and d: "d < 25"
    and len: "length (CompletionDayLevel member) = 25"
    and lenLast: "length (CompletionDayLevel lastMember) = 25"
    and first: "part1First member"
  shows "dayStep lb member lastMember (int d) (CompletionDayLevel member ! d) =
     (newParts lb member lastMember d, None)"
proof -
  let ?day = "CompletionDayLevel member ! d"
  have idx: "index (CompletionDayLevel lastMember) (int d) = Inr (CompletionDayLevel lastMember ! d)"
    using d lenLast by (simp add: index_def)
  have one: "(case Part1 ?day of
          None \<Rightarrow> ([], None)
        | Some p \<Rightarrow>
            (case index (CompletionDayLevel lastMember) (int d) of
               Inl e \<Rightarrow> ([], Some e)
             | Inr lastDay \<Rightarrow>
                 if Part1 lastDay = None then refresh_s lb member (int d) p 1
                 else ([], None))) =
     ((case Part1 ?day of
        None \<Rightarrow> []
      | Some p \<Rightarrow>
          if Part1 (CompletionDayLevel lastMember ! d) = None
          then [completionNotice lb member d 1 p] else []), None)"
  proof (cases "Part1 ?day")
    case None
    then show ?thesis by simp
  next
    case (Some p)
    then have "completionRecord member (int d) 1 = Some p"
      by (simp add: completionRecord_def)
    then have "refresh_s lb member (int d) p 1 = ([completionNotice lb member d 1 p], None)"
      by (intro refresh_s_notice [OF tabs d len]) simp_all
    with Some idx show ?thesis by simp
  qed
  have two: "(case Part2 ?day of
          None \<Rightarrow> ([], None)
        | Some p \<Rightarrow>
            (case index (CompletionDayLevel lastMember) (int d) of
               Inl e \<Rightarrow> ([], Some e)
             | Inr lastDay \<Rightarrow>
                 if Part2 lastDay = None then refresh_s lb member (int d) p 2
                 else ([], None))) =
     ((case Part2 ?day of
        None \<Rightarrow> []
      | Some p \<Rightarrow>
          if Part2 (CompletionDayLevel lastMember ! d) = None
          then [completionNotice lb member d 2 p] else []), None)"
  proof (cases "Part2 ?day")
    case None
    then show ?thesis by simp
  next
    case (Some p)
    then have rec: "completionRecord member (int d) 2 = Some p"
      by (simp add: completionRecord_def)
    have "Part1 ?day \<noteq> None"
      using first d len Some by (intro part1First_nth) simp_all
    then have "refresh_s lb member (int d) p 2 = ([completionNotice lb member d 2 p], None)"
      by (intro refresh_s_notice [OF tabs d len _ rec])
    with Some idx show ?thesis by simp
  qed
  show ?thesis
    unfolding dayStep_def one two by (simp add: andThen_simps newParts_def)
qed

lemma dayLoop_newParts:
  assumes tabs: "tables25 lb"
    and len: "length (CompletionDayLevel member) = 25"
    and lenLast: "length (CompletionDayLevel lastMember) = 25"
    and first: "part1First member"
  shows "d \<le> 25 \<Longrightarrow> days = drop d (CompletionDayLevel member) \<Longrightarrow>
     dayLoop lb member lastMember (int d) days =
       (concat (map (newParts lb member lastMember) [d..<25]), None)"
proof (induction days arbitrary: d)
  case Nil
  then have "d = 25" using len by simp
  then show ?case by simp
next
  case (Cons day days)
  from Cons.prems have d: "d < 25"
    using len by (cases "d = 25") simp_all
  from Cons.prems d have day: "day = CompletionDayLevel member ! d"
    and rest: "days = drop (Suc d) (CompletionDayLevel member)"
    using len by (simp_all add: Cons_nth_drop_Suc [symmetric])
  have "dayLoop lb member lastMember (int (Suc d)) days =
       (concat (map (newParts lb member lastMember) [Suc d..<25]), None)"
    using d rest by (intro Cons.IH) simp_all
  then have tl: "dayLoop lb member lastMember (int d + 1) days =
       (concat (map (newParts lb member lastMember) [Suc d..<25]), None)"
    by (simp add: add.commute)
  have "[d..<25] = d # [Suc d..<25]"
    using d by (simp add: upt_conv_Cons)
  then show ?case
    using dayStep_newParts [OF tabs d len lenLast first]
    by (simp add: day tl andThen_simps)
qed

lemma memberStep_diffMember:
  assumes "tables25 previous" and tabs: "tables25 current"
    and mem: "member \<in> set (Members current)"
    and first: "part1First member"
  shows "memberStep previous current member = (diffMember previous current member, None)"
proof (cases "arrayFind (Members previous) (\<lambda>m. ID m = ID member)")
  case None
  then show ?thesis by (simp add: memberStep_def diffMember_def)
next
  case (Some lastMember)
  then have "lastMember \<in> set (Members previous)" by (auto dest: arrayFind_Some)
  with assms(1) have lenLast: "length (CompletionDayLevel lastMember) = 25"
    by (simp add: tables25_def)
  have len: "length (CompletionDayLevel member) = 25"
    using tabs mem by (simp add: tables25_def)
  have "dayLoop current member lastMember (int 0) (CompletionDayLevel member) =
       (concat (map (newParts current member lastMember) [0..<25]), None)"
    by (intro dayLoop_newParts [OF tabs len lenLast first]) simp_all
  with Some show ?thesis by (simp add: memberStep_def diffMember_def)
qed

lemma memberLoop_concat:
  assumes "tables25 previous" and "tables25 current"
    and "\<forall>m \<in> set ms. m \<in> set (Members current) \<and> part1First m"
  shows "memberLoop previous current ms = (concat (map (diffMember previous current) ms), None)"
  using assms(3)
proof (induction ms)
  case Nil
  then show ?case by simp
next
  case (Cons m ms)
  then have "memberStep previous current m = (diffMember previous current m, None)"
    by (intro memberStep_diffMember [OF assms(1,2)]) simp_all
  moreover have "memberLoop previous current ms = (concat (map (diffMember previous current) ms), None)"
    using Cons by simp
  ultimately show ?case by (simp add: andThen_simps)
qed

lemma memberLoop_diff:
  assumes "tables25 previous" and "tables25 current"
    and "\<forall>m \<in> set (Members current). part1First m"
  shows "memberLoop previous current (Members current) = (diff previous current, None)"
  unfolding diff_def using assms(3) by (intro memberLoop_concat [OF assms(1,2)]) simp

section \<open>Which notifications the loop sends\<close>

lemma totalStarsLoop_eq:
  "totalStarsLoop days i skip acc =
     acc + int (length [d \<leftarrow> days. Part1 d \<noteq> None]) + int (length [d \<leftarrow> days. Part2 d \<noteq> None])
       - (if i \<le> skip \<and> skip < i + int (length days) \<and> Part2 (days ! nat (skip - i)) \<noteq> None
          then 1 else 0)"
proof (induction days arbitrary: i acc)
  case Nil
  then show ?case by simp
next
  case (Cons day days)
  show ?case
  proof (cases "skip = i")
    case True
    show ?thesis
      using Cons.IH [of "i + 1"] unfolding True by (simp add: Let_def)
  next
    case False
    then have "nat (skip - i) = Suc (nat (skip - (i + 1)))" if "i \<le> skip"
      using that by simp
    then have "Part2 ((day # days) ! nat (skip - i)) = Part2 (days ! nat (skip - (i + 1)))"
      if "i \<le> skip" using that by simp
    moreover have "i \<le> skip \<longleftrightarrow> i + 1 \<le> skip" using False by auto
    ultimately show ?thesis
      using Cons.IH [of "i + 1"] by (auto simp add: Let_def)
  qed
qed

lemma getTotalStars_eq:
  "getTotalStars member skip =
     starCount member -
       (if 0 \<le> skip \<and> skip < int (length (CompletionDayLevel member)) \<and>
           Part2 (CompletionDayLevel member ! nat skip) \<noteq> None then 1 else 0)"
  by (simp add: getTotalStars_def starCount_def totalStarsLoop_eq)

lemma completionNotice_sel:
  "is_PartCompleted (completionNotice lb member d partNum p)"
  "who (completionNotice lb member d partNum p) = member"
  "dayNum (completionNotice lb member d partNum p) = int d + 1"
  "part (completionNotice lb member d partNum p) = partNum"
  "totalStars (completionNotice lb member d partNum p) =
     getTotalStars member (if partNum = 1 then int d else - 1)"
  by (simp_all add: completionNotice_def Let_def)

lemma newParts_iff:
  "n \<in> set (newParts lb member lastMember d) \<longleftrightarrow>
     (\<exists>p. Part1 (CompletionDayLevel member ! d) = Some p \<and>
          Part1 (CompletionDayLevel lastMember ! d) = None \<and> n = completionNotice lb member d 1 p) \<or>
     (\<exists>p. Part2 (CompletionDayLevel member ! d) = Some p \<and>
          Part2 (CompletionDayLevel lastMember ! d) = None \<and> n = completionNotice lb member d 2 p)"
  by (cases "Part1 (CompletionDayLevel member ! d)"; cases "Part2 (CompletionDayLevel member ! d)")
     (auto simp: newParts_def)

lemma diffMember_found_iff:
  assumes "arrayFind (Members previous) (\<lambda>m. ID m = ID member) = Some lastMember"
  shows "n \<in> set (diffMember previous current member) \<longleftrightarrow>
     (\<exists>d < 25. n \<in> set (newParts current member lastMember d))"
  using assms by (auto simp: diffMember_def)

lemma who_diffMember: "n \<in> set (diffMember previous current member) \<Longrightarrow> who n = member"
  by (auto simp: diffMember_def newParts_iff completionNotice_sel split: option.splits)

lemma diff_iff:
  "n \<in> set (diff previous current) \<longleftrightarrow>
     who n \<in> set (Members current) \<and> n \<in> set (diffMember previous current (who n))"
  by (auto simp: diff_def dest: who_diffMember)

lemma newlyCompleted_parts:
  "newlyCompleted lastMember member d 1 \<longleftrightarrow>
     Part1 (CompletionDayLevel member ! d) \<noteq> None \<and> Part1 (CompletionDayLevel lastMember ! d) = None"
  "newlyCompleted lastMember member d 2 \<longleftrightarrow>
     Part2 (CompletionDayLevel member ! d) \<noteq> None \<and> Part2 (CompletionDayLevel lastMember ! d) = None"
  by (simp_all add: newlyCompleted_def completionRecord_def)

lemma set_newParts:
  "set (newParts lb member lastMember d) =
     (if newlyCompleted lastMember member d 1
      then {completionNotice lb member d 1 (the (Part1 (CompletionDayLevel member ! d)))} else {}) \<union>
     (if newlyCompleted lastMember member d 2
      then {completionNotice lb member d 2 (the (Part2 (CompletionDayLevel member ! d)))} else {})"
  by (cases "Part1 (CompletionDayLevel member ! d)"; cases "Part2 (CompletionDayLevel member ! d)")
     (auto simp: newParts_def newlyCompleted_parts)

lemma newParts_event_iff:
  assumes "partNum = 1 \<or> partNum = 2"
  shows "(\<exists>n \<in> set (newParts lb member lastMember d).
            is_PartCompleted n \<and> who n = member \<and> dayNum n = int d' + 1 \<and> part n = partNum) \<longleftrightarrow>
         d = d' \<and> newlyCompleted lastMember member d partNum"
proof -
  have "(\<exists>n \<in> set (newParts lb member lastMember d).
            is_PartCompleted n \<and> who n = member \<and> dayNum n = int d' + 1 \<and> part n = 1) \<longleftrightarrow>
         d = d' \<and> newlyCompleted lastMember member d 1"
    by (simp add: set_newParts completionNotice_sel)
  moreover have "(\<exists>n \<in> set (newParts lb member lastMember d).
            is_PartCompleted n \<and> who n = member \<and> dayNum n = int d' + 1 \<and> part n = 2) \<longleftrightarrow>
         d = d' \<and> newlyCompleted lastMember member d 2"
    by (simp add: set_newParts completionNotice_sel)
  ultimately show ?thesis using assms by auto
qed

lemma diff_event_iff:
  assumes mem: "member \<in> set (Members current)"
    and found: "arrayFind (Members previous) (\<lambda>m. ID m = ID member) = Some lastMember"
    and d: "d < 25" and p: "partNum = 1 \<or> partNum = 2"
  shows "(\<exists>n \<in> set (diff previous current).
            is_PartCompleted n \<and> who n = member \<and> dayNum n = int d + 1 \<and> part n = partNum) \<longleftrightarrow>
         newlyCompleted lastMember member d partNum"
proof
  assume "\<exists>n \<in> set (diff previous current).
            is_PartCompleted n \<and> who n = member \<and> dayNum n = int d + 1 \<and> part n = partNum"
  then obtain n where n: "n \<in> set (diffMember previous current member)"
    "is_PartCompleted n" "who n = member" "dayNum n = int d + 1" "part n = partNum"
    by (auto simp: diff_iff)
  from n(1) obtain d' where "d' < 25" "n \<in> set (newParts current member lastMember d')"
    by (auto simp: diffMember_found_iff [OF found])
  with n(2-5) have "\<exists>n \<in> set (newParts current member lastMember d').
            is_PartCompleted n \<and> who n = member \<and> dayNum n = int d + 1 \<and> part n = partNum"
    by blast
  then show "newlyCompleted lastMember member d partNum"
    by (auto simp: newParts_event_iff [OF p])
next
  assume "newlyCompleted lastMember member d partNum"
  then have "\<exists>n \<in> set (newParts current member lastMember d).
            is_PartCompleted n \<and> who n = member \<and> dayNum n = int d + 1 \<and> part n = partNum"
    by (simp add: newParts_event_iff [OF p])
  then obtain n where n: "n \<in> set (newParts current member lastMember d)"
    "is_PartCompleted n \<and> who n = member \<and> dayNum n = int d + 1 \<and> part n = partNum"
    by blast
  from n(1) d have "n \<in> set (diffMember previous current member)"
    by (auto simp: diffMember_found_iff [OF found])
  with n(2) mem show "\<exists>n \<in> set (diff previous current).
            is_PartCompleted n \<and> who n = member \<and> dayNum n = int d + 1 \<and> part n = partNum"
    by (auto simp: diff_iff)
qed

lemma arrayFind_distinct:
  "distinct (map f xs) \<Longrightarrow> x \<in> set xs \<Longrightarrow> arrayFind xs (\<lambda>y. f y = f x) = Some x"
  by (induction xs) (auto simp: image_iff)

lemma newParts_same: "newParts lb member member d = []"
  by (simp add: newParts_def split: option.splits)

lemma diff_same:
  assumes "distinct (map ID (Members s))"
  shows "diff s s = []"
proof -
  have "diffMember s s m = []" if "m \<in> set (Members s)" for m
    using arrayFind_distinct [OF assms that] by (simp add: diffMember_def newParts_same)
  then show ?thesis by (simp add: diff_def)
qed

text \<open>
  C2. For snapshots with 25-slot tables (the current one without a Part2 before Part1),
  and a member of the current snapshot that \<^verbatim>\<open>arrayFind\<close> finds in the previous one:
  the loop does not panic, and it sends a completion notification for that member, day
  \<open>d + 1\<close> and part \<open>partNum\<close> exactly when the part's record is populated in the
  current slot of day index \<open>d\<close> and empty in the previous one. Diffing a snapshot
  with unique IDs against itself sends nothing.
\<close>

theorem partCompleted_iff_newly_populated:
  assumes "tables25 previous" and "tables25 current"
    and "\<forall>m \<in> set (Members current). part1First m"
    and "member \<in> set (Members current)"
    and "arrayFind (Members previous) (\<lambda>m. ID m = ID member) = Some lastMember"
    and "d < 25" and "partNum = 1 \<or> partNum = 2"
  shows "snd (memberLoop previous current (Members current)) = None \<and>
    ((\<exists>n \<in> set (fst (memberLoop previous current (Members current))).
        is_PartCompleted n \<and> who n = member \<and> dayNum n = int d + 1 \<and> part n = partNum) \<longleftrightarrow>
     completionRecord member (int d) partNum \<noteq> None \<and>
     completionRecord lastMember (int d) partNum = None) \<and>
    (distinct (map ID (Members current)) \<longrightarrow>
       memberLoop current current (Members current) = ([], None))"
proof -
  have "memberLoop current current (Members current) = (diff current current, None)"
    by (rule memberLoop_diff [OF assms(2,2,3)])
  then show ?thesis
    using diff_event_iff [OF assms(4-7)]
    by (simp add: memberLoop_diff [OF assms(1-3)] newlyCompleted_def diff_same)
qed

lemma notice_totalStars:
  assumes "d < length (CompletionDayLevel member)"
  shows "totalStars (completionNotice lb member d 1 p) =
           starCount member - (if Part2 (CompletionDayLevel member ! d) \<noteq> None then 1 else 0)"
    and "totalStars (completionNotice lb member d 2 p) = starCount member"
  using assms by (simp_all add: completionNotice_sel getTotalStars_eq)

lemma newParts_totalStars:
  assumes len: "length (CompletionDayLevel member) = 25"
    and lenLast: "length (CompletionDayLevel lastMember) = 25"
    and first: "part1First lastMember"
    and d: "d < 25"
    and n: "n \<in> set (newParts lb member lastMember d)"
  shows "dayNum n = int d + 1 \<and> newlyCompleted lastMember member d (part n) \<and>
     (part n = 1 \<or> part n = 2) \<and>
     totalStars n = (if part n = 1 \<and> newlyCompleted lastMember member d 2
                     then starCount member - 1 else starCount member)"
proof -
  let ?n1 = "completionNotice lb member d 1 (the (Part1 (CompletionDayLevel member ! d)))"
  let ?n2 = "completionNotice lb member d 2 (the (Part2 (CompletionDayLevel member ! d)))"
  from n consider
      (one) "newlyCompleted lastMember member d 1" "n = ?n1"
    | (two) "newlyCompleted lastMember member d 2" "n = ?n2"
    by (auto simp: set_newParts split: if_splits)
  then show ?thesis
  proof cases
    case one
    then have "Part1 (CompletionDayLevel lastMember ! d) = None"
      by (simp add: newlyCompleted_parts)
    then have "Part2 (CompletionDayLevel lastMember ! d) = None"
      using part1First_nth [OF first, of d] d lenLast
      by (cases "Part2 (CompletionDayLevel lastMember ! d)") simp_all
    then have "newlyCompleted lastMember member d 2 \<longleftrightarrow>
        Part2 (CompletionDayLevel member ! d) \<noteq> None"
      by (simp add: newlyCompleted_parts)
    with one d len show ?thesis
      by (simp add: completionNotice_sel(2-4) notice_totalStars)
  next
    case two
    with d len show ?thesis
      by (simp add: completionNotice_sel(2-4) notice_totalStars)
  qed
qed

text \<open>
  C3. For snapshots as above (both without a Part2 before Part1), every completion
  notification the loop sends for a member found in the previous snapshot is for a newly
  completed part of some day index \<open>d < 25\<close>, and the star total it carries is the
  number of populated Part1 and Part2 records of the member's current table, minus one
  exactly when it is the Part1 notification of a day whose Part2 is newly completed too.
\<close>

theorem totalStars_of_event:
  assumes "tables25 previous" and "tables25 current"
    and "\<forall>m \<in> set (Members current). part1First m"
    and "\<forall>m \<in> set (Members previous). part1First m"
    and "n \<in> set (fst (memberLoop previous current (Members current)))"
    and "is_PartCompleted n"
    and "arrayFind (Members previous) (\<lambda>m. ID m = ID (who n)) = Some lastMember"
  shows "\<exists>d < 25. dayNum n = int d + 1 \<and> newlyCompleted lastMember (who n) d (part n) \<and>
     (part n = 1 \<or> part n = 2) \<and>
     totalStars n = (if part n = 1 \<and> newlyCompleted lastMember (who n) d 2
                     then starCount (who n) - 1 else starCount (who n))"
proof -
  from assms(5) have n: "who n \<in> set (Members current)"
    "n \<in> set (diffMember previous current (who n))"
    by (simp_all add: memberLoop_diff [OF assms(1-3)] diff_iff)
  from n(2) obtain d where d: "d < 25" "n \<in> set (newParts current (who n) lastMember d)"
    by (auto simp: diffMember_found_iff [OF assms(7)])
  have last: "lastMember \<in> set (Members previous)"
    using assms(7) by (auto dest: arrayFind_Some)
  have "length (CompletionDayLevel (who n)) = 25" "length (CompletionDayLevel lastMember) = 25"
    "part1First lastMember"
    using assms(1,2,4) n(1) last by (simp_all add: tables25_def)
  from newParts_totalStars [OF this d] d(1) show ?thesis by blast
qed

lemma filter_concat_single:
  assumes "distinct xs" and "x \<in> set xs"
    and "\<And>y n. n \<in> set (f y) \<Longrightarrow> g n = y"
  shows "[n \<leftarrow> concat (map f xs). g n = x] = f x"
  using assms(1,2)
proof (induction xs)
  case Nil
  then show ?case by simp
next
  case (Cons a xs)
  have keep: "[n \<leftarrow> f y. g n = x] = (if y = x then f y else [])" for y
    using assms(3) [of _ y] by (auto simp: filter_empty_conv filter_id_conv)
  show ?case
  proof (cases "a = x")
    case True
    with Cons.prems have "x \<notin> set xs" by simp
    then have "[n \<leftarrow> concat (map f xs). g n = x] = []"
      using assms(3) by (auto simp: filter_empty_conv)
    with True show ?thesis by (simp add: keep)
  next
    case False
    with Cons show ?thesis by (simp add: keep)
  qed
qed

lemma diff_of_member:
  assumes "distinct (map ID (Members current))" and "member \<in> set (Members current)"
  shows "[n \<leftarrow> diff previous current. who n = member] = diffMember previous current member"
  unfolding diff_def
  using assms by (intro filter_concat_single) (auto dest: who_diffMember distinct_map [THEN iffD1])

text \<open>
  C5. A member of the current snapshot whose ID no member of the previous snapshot has
  makes its round of the loop send exactly one new-challenger notification, whatever its
  table holds; and when the loop runs on snapshots as above with unique current IDs, the
  notifications about that member are that single one.
\<close>

theorem new_member_single_event:
  assumes "member \<in> set (Members current)"
    and "arrayFind (Members previous) (\<lambda>m. ID m = ID member) = None"
  shows "memberStep previous current member = ([NewChallenger member], None) \<and>
    (tables25 previous \<and> tables25 current \<and> (\<forall>m \<in> set (Members current). part1First m) \<and>
     distinct (map ID (Members current)) \<longrightarrow>
       snd (memberLoop previous current (Members current)) = None \<and>
       [n \<leftarrow> fst (memberLoop previous current (Members current)). who n = member] =
         [NewChallenger member])"
  using assms(2) diff_of_member [OF _ assms(1), of previous]
  by (auto simp: memberStep_def diffMember_def memberLoop_diff)

section \<open>The loop on the sample boards\<close>

lemma day1Table_length: "length (day1Table d) = 25"
  by (simp add: day1Table_def)

lemma day1Table_nth: "day1Table d ! 0 = d" "k < 24 \<Longrightarrow> day1Table d ! Suc k = emptyDay"
  by (simp_all add: day1Table_def)

lemma plainMember_sel:
  "CompletionDayLevel (plainMember n i table) = table" "ID (plainMember n i table) = i"
  by (simp_all add: plainMember_def)

lemma part1First_day1:
  "(Part2 d \<noteq> None \<longrightarrow> Part1 d \<noteq> None) \<Longrightarrow> part1First (plainMember n i (day1Table d))"
  by (auto simp: part1First_def plainMember_def day1Table_def emptyDay_def)

lemma sample_part1First:
  "part1First amyBefore" "part1First amyAfter" "part1First ben" "part1First calBefore"
  "part1First calAfter"
  by (simp_all add: amyBefore_def amyAfter_def ben_def calBefore_def calAfter_def
      part1First_day1 emptyDay_def)

lemma sample_tables:
  "tables25 previousBoard" "tables25 currentBoard"
  by (simp_all add: tables25_def previousBoard_def currentBoard_def board_def amyBefore_def
      amyAfter_def ben_def calBefore_def calAfter_def plainMember_sel day1Table_length)

lemma sample_members:
  "Members previousBoard = [amyBefore, calBefore]"
  "Members currentBoard = [amyAfter, ben, calAfter]"
  by (simp_all add: previousBoard_def currentBoard_def board_def)

lemma sample_ids:
  "ID amyBefore = 7" "ID amyAfter = 7" "ID ben = 8" "ID calBefore = 9" "ID calAfter = 9"
  by (simp_all add: amyBefore_def amyAfter_def ben_def calBefore_def calAfter_def plainMember_sel)

lemma sample_find:
  "arrayFind (Members previousBoard) (\<lambda>m. ID m = ID amyAfter) = Some amyBefore"
  "arrayFind (Members previousBoard) (\<lambda>m. ID m = ID ben) = None"
  "arrayFind (Members previousBoard) (\<lambda>m. ID m = ID calAfter) = Some calBefore"
  by (simp_all add: sample_members sample_ids)

lemma sample_day1:
  "CompletionDayLevel amyBefore ! 0 = \<lparr>Part1 = Some (star 1701406800), Part2 = None\<rparr>"
  "CompletionDayLevel amyAfter ! 0 = \<lparr>Part1 = Some (star 1701406800), Part2 = Some (star 1701407400)\<rparr>"
  "CompletionDayLevel ben ! 0 = \<lparr>Part1 = Some (star 1701407000), Part2 = None\<rparr>"
  "CompletionDayLevel calBefore ! 0 = emptyDay"
  "CompletionDayLevel calAfter ! 0 = \<lparr>Part1 = Some (star 1701408000), Part2 = Some (star 1701409000)\<rparr>"
  by (simp_all add: amyBefore_def amyAfter_def ben_def calBefore_def calAfter_def plainMember_sel
      day1Table_nth)

lemma sample_lengths:
  "length (CompletionDayLevel amyAfter) = 25" "length (CompletionDayLevel calAfter) = 25"
  by (simp_all add: amyAfter_def calAfter_def plainMember_sel day1Table_length)

lemma sample_later_days:
  assumes "k < 24"
  shows "CompletionDayLevel amyAfter ! Suc k = emptyDay" "CompletionDayLevel calAfter ! Suc k = emptyDay"
  using assms by (simp_all add: amyAfter_def calAfter_def plainMember_sel day1Table_nth)

lemma concat_first_day:
  assumes "\<And>k. k < 24 \<Longrightarrow> f (Suc k) = []"
  shows "concat (map f [0..<25]) = f 0"
proof -
  have "[0..<25] = 0 # map Suc [0..<24]"
    by (simp add: upt_conv_Cons map_Suc_upt del: upt_Suc)
  moreover have "concat (map (\<lambda>k. f (Suc k)) [0..<24]) = []"
    using assms by simp
  ultimately show ?thesis by (simp add: comp_def)
qed

lemma newParts_emptyDay: "CompletionDayLevel member ! d = emptyDay \<Longrightarrow> newParts lb member lastMember d = []"
  by (simp add: newParts_def emptyDay_def)

lemma sample_records_day1:
  "completionRecord amyAfter 0 1 = Some (star 1701406800)"
  "completionRecord amyAfter 0 2 = Some (star 1701407400)"
  "completionRecord ben 0 1 = Some (star 1701407000)"
  "completionRecord ben 0 2 = None"
  "completionRecord calAfter 0 1 = Some (star 1701408000)"
  "completionRecord calAfter 0 2 = Some (star 1701409000)"
  "completionRecord amyBefore 0 1 = Some (star 1701406800)"
  "completionRecord amyBefore 0 2 = None"
  "completionRecord calBefore 0 1 = None"
  "completionRecord calBefore 0 2 = None"
  by (simp_all add: completionRecord_def sample_day1 emptyDay_def)

lemma sample_starCount: "starCount amyAfter = 2" "starCount calAfter = 2"
  by (simp_all add: starCount_def amyAfter_def calAfter_def plainMember_sel day1Table_def emptyDay_def)

lemma sample_earlier_day1:
  "finishedEarlier currentBoard amyAfter 0 2 1701407400 = []"
  "finishedEarlier currentBoard calAfter 0 1 1701408000 = [amyAfter, ben]"
  "finishedEarlier currentBoard calAfter 0 2 1701409000 = [amyAfter]"
  by (simp_all add: finishedEarlier_def sample_members sample_ids sample_records_day1 star_def)

lemma sample_notices:
  "completionNotice currentBoard amyAfter 0 2 (star 1701407400) =
     PartCompleted amyAfter 1 2 1 ''st'' 1701407400 2 ''s''"
  "completionNotice currentBoard calAfter 0 1 (star 1701408000) =
     PartCompleted calAfter 1 1 3 ''rd'' 1701408000 1 []"
  "completionNotice currentBoard calAfter 0 2 (star 1701409000) =
     PartCompleted calAfter 1 2 2 ''nd'' 1701409000 2 ''s''"
  by (simp_all add: completionNotice_def Let_def getTotalStars_eq sample_starCount
      sample_earlier_day1 star_def english_suffix_def sample_day1 sample_lengths)


lemma sample_diffMember:
  "diffMember previousBoard currentBoard amyAfter = [PartCompleted amyAfter 1 2 1 ''st'' 1701407400 2 ''s'']"
  "diffMember previousBoard currentBoard ben = [NewChallenger ben]"
  "diffMember previousBoard currentBoard calAfter =
     [PartCompleted calAfter 1 1 3 ''rd'' 1701408000 1 [], PartCompleted calAfter 1 2 2 ''nd'' 1701409000 2 ''s'']"
  by (simp_all add: diffMember_def sample_find concat_first_day newParts_emptyDay sample_later_days)
     (simp_all add: newParts_def sample_day1 emptyDay_def sample_notices)

lemma sample_loop:
  "memberLoop previousBoard currentBoard (Members currentBoard) =
     ([PartCompleted amyAfter 1 2 1 ''st'' 1701407400 2 ''s'',
       NewChallenger ben,
       PartCompleted calAfter 1 1 3 ''rd'' 1701408000 1 [],
       PartCompleted calAfter 1 2 2 ''nd'' 1701409000 2 ''s''], None)"
proof -
  have "\<forall>m \<in> set (Members currentBoard). part1First m"
    by (simp add: sample_members sample_part1First)
  then have "memberLoop previousBoard currentBoard (Members currentBoard) =
      (diff previousBoard currentBoard, None)"
    by (intro memberLoop_diff sample_tables)
  then show ?thesis
    by (simp add: diff_def sample_members sample_diffMember)
qed

lemma sample_current_inv:
  "\<forall>m \<in> set (Members currentBoard). part1First m" "distinct (map ID (Members currentBoard))"
  "amyAfter \<in> set (Members currentBoard)" "ben \<in> set (Members currentBoard)"
  "calAfter \<in> set (Members currentBoard)"
  by (simp_all add: sample_members sample_part1First sample_ids)

lemma sample_previous_inv: "\<forall>m \<in> set (Members previousBoard). part1First m"
  by (simp add: sample_members sample_part1First)

theorem partCompleted_iff_newly_populated_witness:
  "snd (memberLoop previousBoard currentBoard (Members currentBoard)) = None \<and>
   (\<exists>n \<in> set (fst (memberLoop previousBoard currentBoard (Members currentBoard))).
      is_PartCompleted n \<and> who n = amyAfter \<and> dayNum n = 1 \<and> part n = 2) \<and>
   \<not> (\<exists>n \<in> set (fst (memberLoop previousBoard currentBoard (Members currentBoard))).
      is_PartCompleted n \<and> who n = amyAfter \<and> dayNum n = 1 \<and> part n = 1) \<and>
   memberLoop currentBoard currentBoard (Members currentBoard) = ([], None)"
  using partCompleted_iff_newly_populated [OF sample_tables sample_current_inv(1,3) sample_find(1),
      of 0 2]
    partCompleted_iff_newly_populated [OF sample_tables sample_current_inv(1,3) sample_find(1),
      of 0 1]
  by (simp add: sample_records_day1 sample_current_inv(2))

theorem totalStars_of_event_witness:
  "totalStars (PartCompleted calAfter 1 1 3 ''rd'' 1701408000 1 []) = starCount calAfter - 1 \<and>
   totalStars (PartCompleted calAfter 1 2 2 ''nd'' 1701409000 2 ''s'') = starCount calAfter \<and>
   PartCompleted calAfter 1 1 3 ''rd'' 1701408000 1 [] \<in>
     set (fst (memberLoop previousBoard currentBoard (Members currentBoard))) \<and>
   PartCompleted calAfter 1 2 2 ''nd'' 1701409000 2 ''s'' \<in>
     set (fst (memberLoop previousBoard currentBoard (Members currentBoard)))"
proof -
  let ?n1 = "PartCompleted calAfter 1 1 3 ''rd'' 1701408000 1 []"
  let ?n2 = "PartCompleted calAfter 1 2 2 ''nd'' 1701409000 2 ''s''"
  have new: "newlyCompleted calBefore calAfter 0 2"
    by (simp add: newlyCompleted_def sample_records_day1)
  have sent: "?n1 \<in> set (fst (memberLoop previousBoard currentBoard (Members currentBoard)))"
    "?n2 \<in> set (fst (memberLoop previousBoard currentBoard (Members currentBoard)))"
    by (simp_all add: sample_loop)
  have found: "arrayFind (Members previousBoard) (\<lambda>m. ID m = ID (who ?n1)) = Some calBefore"
    "arrayFind (Members previousBoard) (\<lambda>m. ID m = ID (who ?n2)) = Some calBefore"
    by (simp_all add: sample_find)
  from totalStars_of_event [OF sample_tables sample_current_inv(1) sample_previous_inv
      sent(1) _ found(1)]
  obtain d where "dayNum ?n1 = int d + 1"
    "totalStars ?n1 = (if part ?n1 = 1 \<and> newlyCompleted calBefore (who ?n1) d 2
       then starCount (who ?n1) - 1 else starCount (who ?n1))"
    by auto
  then have one: "totalStars ?n1 = starCount calAfter - 1"
    using new by simp
  from totalStars_of_event [OF sample_tables sample_current_inv(1) sample_previous_inv
      sent(2) _ found(2)]
  obtain d where "totalStars ?n2 = (if part ?n2 = 1 \<and> newlyCompleted calBefore (who ?n2) d 2
       then starCount (who ?n2) - 1 else starCount (who ?n2))"
    by auto
  then have two: "totalStars ?n2 = starCount calAfter"
    by simp
  show ?thesis using one two sent by blast
qed

theorem new_member_single_event_witness:
  "memberStep previousBoard currentBoard ben = ([NewChallenger ben], None) \<and>
   [n \<leftarrow> fst (memberLoop previousBoard currentBoard (Members currentBoard)). who n = ben] =
     [NewChallenger ben] \<and>
   CompletionDayLevel ben ! 0 = \<lparr>Part1 = Some (star 1701407000), Part2 = None\<rparr>"
  using new_member_single_event [OF sample_current_inv(4) sample_find(2)]
  by (simp add: sample_tables sample_current_inv sample_day1)

section \<open>The parser on the sample documents\<close>

lemma docs_differ:
  "previousDoc \<noteq> currentDoc" "previousDoc \<noteq> ''{}''" "currentDoc \<noteq> ''{}''"
  "previousDoc \<noteq> []" "currentDoc \<noteq> []"
  by (simp_all add: previousDoc_def currentDoc_def)

lemma sampleCodec_sel:
  "UnmarshalBoard sampleCodec previousDoc = ((''2023'', 1), False)"
  "UnmarshalBoard sampleCodec currentDoc = ((''2023'', 1), False)"
  "UnmarshalBoard sampleCodec ''{}'' = (([], 0), False)"
  "ParseBytes sampleCodec previousDoc = Some previousTree"
  "ParseBytes sampleCodec currentDoc = Some currentTree"
  "ParseBytes sampleCodec ''{}'' = Some (JObject [])"
  "UnmarshalMember sampleCodec = sampleMember"
  "UnmarshalPart sampleCodec = samplePart"
  "Atoi sampleCodec = decimalAtoi"
  using docs_differ by (simp_all add: sampleCodec_def)

lemma decimalAtoi_samples:
  "decimalAtoi ''1'' = 1" "decimalAtoi ''7'' = 7" "decimalAtoi ''8'' = 8" "decimalAtoi ''9'' = 9"
  "decimalAtoi ''1701406800'' = 1701406800" "decimalAtoi ''1701407400'' = 1701407400"
  "decimalAtoi ''1701407000'' = 1701407000" "decimalAtoi ''1701408000'' = 1701408000"
  "decimalAtoi ''1701409000'' = 1701409000"
  by (simp_all add: decimalAtoi_def Let_def)

lemma samplePart_starTree:
  "samplePart (starTree ''1701406800'') = star 1701406800"
  "samplePart (starTree ''1701407400'') = star 1701407400"
  "samplePart (starTree ''1701407000'') = star 1701407000"
  "samplePart (starTree ''1701408000'') = star 1701408000"
  "samplePart (starTree ''1701409000'') = star 1701409000"
  by (simp_all add: samplePart_def starTree_def numberAt_def decimalAtoi_samples star_def)

lemma sampleMember_memberTree:
  "sampleMember (memberTree n i days) = plainMember n (decimalAtoi i) []"
  by (simp add: sampleMember_def memberTree_def numberAt_def stringAt_def plainMember_def)

lemma first_slot: "(replicate 25 emptyDay)[0 := d] = day1Table d"
proof -
  have "replicate 25 emptyDay = emptyDay # replicate 24 emptyDay"
    by (simp add: replicate_Suc [symmetric] del: replicate_Suc)
  then show ?thesis by (simp add: day1Table_def)
qed

lemma GetObject_trees:
  "GetObject (memberTree n i days) ''completion_day_level'' = Some days"
  "GetObject (boardTree ms) ''members'' = Some ms"
  by (simp_all add: GetObject_def memberTree_def boardTree_def)

lemma plainMember_table:
  "(plainMember n i t)\<lparr>CompletionDayLevel := t'\<rparr> = plainMember n i t'"
  by (simp add: plainMember_def)

lemma visitMember_memberTree:
  "visitMember sampleCodec (memberTree n i []) =
     Inr (plainMember n (decimalAtoi i) (replicate 25 emptyDay))"
  "visitMember sampleCodec (memberTree n i [(''1'', JObject parts)]) =
     Inr (plainMember n (decimalAtoi i) (day1Table (visitParts sampleCodec parts emptyDay)))"
  by (simp_all add: visitMember_def sampleCodec_sel sampleMember_memberTree Let_def
      GetObject_trees plainMember_table plainMember_sel Object_def
      decimalAtoi_samples first_slot)

lemma visitParts_samples:
  "visitParts sampleCodec [(''1'', starTree ''1701406800'')] emptyDay =
     \<lparr>Part1 = Some (star 1701406800), Part2 = None\<rparr>"
  "visitParts sampleCodec [(''1'', starTree ''1701407000'')] emptyDay =
     \<lparr>Part1 = Some (star 1701407000), Part2 = None\<rparr>"
  "visitParts sampleCodec [(''1'', starTree ''1701406800''), (''2'', starTree ''1701407400'')] emptyDay =
     \<lparr>Part1 = Some (star 1701406800), Part2 = Some (star 1701407400)\<rparr>"
  "visitParts sampleCodec [(''1'', starTree ''1701408000''), (''2'', starTree ''1701409000'')] emptyDay =
     \<lparr>Part1 = Some (star 1701408000), Part2 = Some (star 1701409000)\<rparr>"
  by (simp_all add: sampleCodec_sel samplePart_starTree emptyDay_def)

lemma empty_table: "replicate 25 emptyDay = day1Table emptyDay"
  by (simp add: day1Table_def replicate_Suc [symmetric] del: replicate_Suc)

lemma build_samples:
  "buildLeaderboard sampleCodec previousDoc = Inr (previousBoard, None)"
  "buildLeaderboard sampleCodec currentDoc = Inr (currentBoard, None)"
  by (simp_all add: buildLeaderboard_def sampleCodec_sel previousTree_def currentTree_def
      GetObject_trees visitMember_memberTree visitParts_samples decimalAtoi_samples
      previousBoard_def currentBoard_def board_def amyBefore_def amyAfter_def ben_def
      calBefore_def calAfter_def empty_table [unfolded emptyDay_def] samplePart_starTree
      emptyDay_def)

lemma build_empty_object:
  "buildLeaderboard sampleCodec ''{}'' = Inr (\<lparr>Event = [], Members = [], OwnerID = 0\<rparr>, None)"
  by (simp add: buildLeaderboard_def sampleCodec_sel GetObject_def)

section \<open>Tables built by the parser\<close>

lemma visitDays_length: "visitDays c kvs table = Inr t \<Longrightarrow> length t = length table"
proof (induction kvs arbitrary: table)
  case Nil
  then show ?case by simp
next
  case (Cons kv kvs)
  obtain k v where kv: "kv = (k, v)" by (cases kv)
  from Cons.prems obtain d where "visitDays c kvs (table[nat (Atoi c k - 1) := d]) = Inr t"
    unfolding kv by (auto simp: Let_def split: if_splits)
  then have "length t = length (table[nat (Atoi c k - 1) := d])" by (rule Cons.IH)
  then show ?case by simp
qed

lemma visitDays_untouched:
  assumes "visitDays c kvs table = Inr t"
    and "\<forall>kd \<in> set kvs. Atoi c (fst kd) - 1 \<noteq> int i"
  shows "t ! i = table ! i"
  using assms
proof (induction kvs arbitrary: table)
  case Nil
  then show ?case by simp
next
  case (Cons kv kvs)
  obtain k v where kv: "kv = (k, v)" by (cases kv)
  from Cons.prems(1) obtain d where range: "0 \<le> Atoi c k - 1"
    and rest: "visitDays c kvs (table[nat (Atoi c k - 1) := d]) = Inr t"
    unfolding kv by (auto simp: Let_def split: if_splits)
  from Cons.prems(2) have other: "Atoi c k - 1 \<noteq> int i" and "\<forall>kd \<in> set kvs. Atoi c (fst kd) - 1 \<noteq> int i"
    by (simp_all add: kv)
  with rest have "t ! i = (table[nat (Atoi c k - 1) := d]) ! i" by (intro Cons.IH)
  moreover have "nat (Atoi c k - 1) \<noteq> i" using range other by auto
  ultimately show ?case by simp
qed

text \<open>A day key whose number is outside the table makes the store panic.\<close>

lemma visitDays_out_of_range:
  assumes "Atoi c completionKey - 1 < 0 \<or> int (length table) \<le> Atoi c completionKey - 1"
  shows "visitDays c ((completionKey, completionDay) # rest) table = Inl IndexOutOfRange"
  using assms by (auto simp: Let_def)

lemma visitMember_table:
  assumes "visitMember c memberVal = Inr m"
  shows "length (CompletionDayLevel m) = 25"
    and "i < 25 \<Longrightarrow> \<forall>kd \<in> set (dayEntries memberVal). Atoi c (fst kd) - 1 \<noteq> int i \<Longrightarrow>
         CompletionDayLevel m ! i = emptyDay"
proof -
  from assms have t: "visitDays c (dayEntries memberVal) (replicate 25 emptyDay) = Inr (CompletionDayLevel m)"
    by (auto simp: visitMember_def dayEntries_def Let_def split: option.splits sum.splits)
  from visitDays_length [OF t] show "length (CompletionDayLevel m) = 25" by simp
  show "CompletionDayLevel m ! i = emptyDay"
    if "i < 25" "\<forall>kd \<in> set (dayEntries memberVal). Atoi c (fst kd) - 1 \<noteq> int i"
    using visitDays_untouched [OF t that(2)] that(1) by simp
qed

lemma visitMembers_all2:
  "visitMembers c kvs acc = Inr ms \<Longrightarrow>
     \<exists>new. ms = acc @ new \<and> list_all2 (\<lambda>kv m. visitMember c (snd kv) = Inr m) kvs new"
proof (induction kvs arbitrary: acc)
  case Nil
  then show ?case by simp
next
  case (Cons kv kvs)
  obtain k v where kv: "kv = (k, v)" by (cases kv)
  from Cons.prems obtain m where m: "visitMember c v = Inr m"
    and rest: "visitMembers c kvs (acc @ [m]) = Inr ms"
    unfolding kv by (auto split: sum.splits)
  from Cons.IH [OF rest] obtain new where "ms = (acc @ [m]) @ new"
    "list_all2 (\<lambda>kv m. visitMember c (snd kv) = Inr m) kvs new" by blast
  with m show ?case by (intro exI [of _ "m # new"]) (simp add: kv)
qed

lemma buildLeaderboard_members:
  assumes "buildLeaderboard c body = Inr (lb, None)"
  shows "\<exists>doc. ParseBytes c body = Some doc \<and>
     list_all2 (\<lambda>kv m. visitMember c (snd kv) = Inr m) (memberEntries doc) (Members lb)"
proof -
  obtain ev ow err where u: "UnmarshalBoard c body = ((ev, ow), err)"
    by (metis surj_pair)
  from assms u obtain doc where doc: "ParseBytes c body = Some doc"
    by (auto simp: buildLeaderboard_def Let_def split: if_splits option.splits)
  show ?thesis
  proof (cases "GetObject doc ''members''")
    case None
    with assms u doc have "Members lb = []"
      by (auto simp: buildLeaderboard_def Let_def split: if_splits)
    with None doc show ?thesis by (simp add: memberEntries_def)
  next
    case (Some kvs)
    with assms u doc have "visitMembers c kvs [] = Inr (Members lb)"
      by (auto simp: buildLeaderboard_def Let_def split: if_splits sum.splits)
    from visitMembers_all2 [OF this] Some doc show ?thesis
      by (simp add: memberEntries_def)
  qed
qed

lemma buildLeaderboard_error_members:
  assumes "buildLeaderboard c body = Inr (lb, Some e)"
  shows "Members lb = []"
proof -
  obtain ev ow err where u: "UnmarshalBoard c body = ((ev, ow), err)"
    by (metis surj_pair)
  with assms show ?thesis
    by (auto simp: buildLeaderboard_def Let_def split: if_splits option.splits sum.splits)
qed

lemma buildLeaderboard_tables25:
  assumes "buildLeaderboard c body = Inr (lb, err)"
  shows "tables25 lb"
proof (cases err)
  case None
  with assms obtain doc where
    "list_all2 (\<lambda>kv m. visitMember c (snd kv) = Inr m) (memberEntries doc) (Members lb)"
    using buildLeaderboard_members by blast
  then have "\<forall>m \<in> set (Members lb). \<exists>v. visitMember c v = Inr m"
    by (fastforce simp: list_all2_conv_all_nth in_set_conv_nth)
  then show ?thesis
    by (auto simp: tables25_def dest: visitMember_table(1))
next
  case (Some e)
  with assms show ?thesis
    by (simp add: tables25_def buildLeaderboard_error_members)
qed

text \<open>
  C7. Every member of a leaderboard that \<^verbatim>\<open>buildLeaderboard\<close> returns without an
  error has a table of exactly 25 slots, so indexing it at any day index 0..24 does not
  panic; the members are the results of the member visit on the document's member
  entries, in order, and a slot that no day key of the member's
  \<^verbatim>\<open>completion_day_level\<close> addresses is the empty day.
\<close>

theorem parsed_tables_have_25_slots:
  assumes "buildLeaderboard c body = Inr (lb, None)"
  shows "(\<forall>m \<in> set (Members lb). length (CompletionDayLevel m) = 25 \<and>
            (\<forall>i < 25. index (CompletionDayLevel m) (int i) = Inr (CompletionDayLevel m ! i))) \<and>
         (\<exists>doc. ParseBytes c body = Some doc \<and>
            list_all2
              (\<lambda>kv m. visitMember c (snd kv) = Inr m \<and>
                 (\<forall>i < 25. (\<forall>kd \<in> set (dayEntries (snd kv)). Atoi c (fst kd) - 1 \<noteq> int i) \<longrightarrow>
                    CompletionDayLevel m ! i = emptyDay))
              (memberEntries doc) (Members lb))"
proof
  have "tables25 lb" using assms by (rule buildLeaderboard_tables25)
  then show "\<forall>m \<in> set (Members lb). length (CompletionDayLevel m) = 25 \<and>
            (\<forall>i < 25. index (CompletionDayLevel m) (int i) = Inr (CompletionDayLevel m ! i))"
    by (simp add: tables25_def index_def)
  from buildLeaderboard_members [OF assms] obtain doc where doc: "ParseBytes c body = Some doc"
    and all: "list_all2 (\<lambda>kv m. visitMember c (snd kv) = Inr m) (memberEntries doc) (Members lb)"
    by blast
  from all have "list_all2
              (\<lambda>kv m. visitMember c (snd kv) = Inr m \<and>
                 (\<forall>i < 25. (\<forall>kd \<in> set (dayEntries (snd kv)). Atoi c (fst kd) - 1 \<noteq> int i) \<longrightarrow>
                    CompletionDayLevel m ! i = emptyDay))
              (memberEntries doc) (Members lb)"
    by (rule list_all2_mono) (auto dest: visitMember_table(2))
  with doc show "\<exists>doc. ParseBytes c body = Some doc \<and>
            list_all2
              (\<lambda>kv m. visitMember c (snd kv) = Inr m \<and>
                 (\<forall>i < 25. (\<forall>kd \<in> set (dayEntries (snd kv)). Atoi c (fst kd) - 1 \<noteq> int i) \<longrightarrow>
                    CompletionDayLevel m ! i = emptyDay))
              (memberEntries doc) (Members lb)" by blast
qed

theorem parsed_tables_have_25_slots_witness:
  "buildLeaderboard sampleCodec currentDoc = Inr (currentBoard, None) \<and>
   length (CompletionDayLevel ben) = 25 \<and>
   index (CompletionDayLevel ben) 24 = Inr (CompletionDayLevel ben ! 24) \<and>
   CompletionDayLevel ben ! 24 = emptyDay"
proof -
  have "ben \<in> set (Members currentBoard)" by (simp add: sample_members)
  with parsed_tables_have_25_slots [OF build_samples(2)]
  have "length (CompletionDayLevel ben) = 25 \<and>
      (\<forall>i < 25. index (CompletionDayLevel ben) (int i) = Inr (CompletionDayLevel ben ! i))"
    by blast
  then have "length (CompletionDayLevel ben) = 25"
    "index (CompletionDayLevel ben) (int 24) = Inr (CompletionDayLevel ben ! 24)"
    by (simp, elim conjE allE [of _ 24]) simp
  moreover have "CompletionDayLevel ben ! 24 = emptyDay"
    by (simp add: ben_def plainMember_sel day1Table_def)
  ultimately show ?thesis by (simp add: build_samples)
qed

section \<open>Parse errors and the first run\<close>

lemma buildLeaderboard_error_iff:
  "(\<exists>lb e. buildLeaderboard c body = Inr (lb, Some e)) \<longleftrightarrow>
     snd (UnmarshalBoard c body) \<or> ParseBytes c body = None"
proof -
  obtain ev ow err where u: "UnmarshalBoard c body = ((ev, ow), err)"
    by (metis surj_pair)
  show ?thesis
    by (auto simp: buildLeaderboard_def Let_def u split: option.splits sum.splits)
qed

lemma buildLeaderboard_no_members_field:
  assumes "\<not> snd (UnmarshalBoard c body)" and "ParseBytes c body = Some doc"
    and "GetObject doc ''members'' = None"
  shows "buildLeaderboard c body =
     Inr (\<lparr>Event = fst (fst (UnmarshalBoard c body)), Members = [],
           OwnerID = snd (fst (UnmarshalBoard c body))\<rparr>, None)"
proof -
  obtain ev ow err where u: "UnmarshalBoard c body = ((ev, ow), err)"
    by (metis surj_pair)
  with assms show ?thesis
    by (simp add: buildLeaderboard_def Let_def)
qed

lemma diffBodies_error_left:
  "buildLeaderboard c body = Inr (lb, Some e) \<Longrightarrow>
     filter is_Send (fst (diffBodies c body other)) = [] \<and> snd (diffBodies c body other) = None"
  by (simp add: diffBodies_def)

lemma diffBodies_error_right:
  "buildLeaderboard c body = Inr (lb, Some e) \<Longrightarrow>
     filter is_Send (fst (diffBodies c other body)) = []"
  by (simp add: diffBodies_def split: sum.splits option.splits prod.splits)

text \<open>
  C6, as stated, fails: the empty object is well-formed and has none of the expected
  fields, and \<^verbatim>\<open>buildLeaderboard\<close> returns an empty leaderboard without an error.
\<close>

theorem missing_fields_counterexample:
  "ParseBytes sampleCodec ''{}'' = Some (JObject []) \<and>
   objectGet [] ''event'' = None \<and> objectGet [] ''owner_id'' = None \<and>
   objectGet [] ''members'' = None \<and>
   buildLeaderboard sampleCodec ''{}'' = Inr (\<lparr>Event = [], Members = [], OwnerID = 0\<rparr>, None)"
  by (simp add: sampleCodec_sel build_empty_object)

text \<open>
  C6, amended. \<^verbatim>\<open>buildLeaderboard\<close> returns an error exactly when one of the two
  decoders reports one. The leaderboard returned with an error has no members, and the
  cycle sends no notification when either of its two bodies fails. A document both
  decoders accept and that has no \<^verbatim>\<open>members\<close> object is no error: the result is a
  leaderboard without members.
\<close>

theorem buildLeaderboard_fails_iff:
  "((\<exists>lb e. buildLeaderboard c body = Inr (lb, Some e)) \<longleftrightarrow>
      snd (UnmarshalBoard c body) \<or> ParseBytes c body = None) \<and>
   (\<forall>lb e. buildLeaderboard c body = Inr (lb, Some e) \<longrightarrow>
      Members lb = [] \<and>
      filter is_Send (fst (diffBodies c body other)) = [] \<and>
      filter is_Send (fst (diffBodies c other body)) = []) \<and>
   (\<forall>doc. \<not> snd (UnmarshalBoard c body) \<and> ParseBytes c body = Some doc \<and>
      GetObject doc ''members'' = None \<longrightarrow>
      buildLeaderboard c body =
        Inr (\<lparr>Event = fst (fst (UnmarshalBoard c body)), Members = [],
              OwnerID = snd (fst (UnmarshalBoard c body))\<rparr>, None))"
  using buildLeaderboard_error_iff [of c body]
  by (auto simp: buildLeaderboard_error_members buildLeaderboard_no_members_field
      diffBodies_error_left diffBodies_error_right)

lemma corrupt_body:
  "UnmarshalBoard sampleCodec ''<!DOCTYPE html>'' = (([], 0), True)"
  by (simp add: sampleCodec_def previousDoc_def currentDoc_def)

theorem buildLeaderboard_fails_iff_witness:
  "buildLeaderboard sampleCodec ''<!DOCTYPE html>'' =
     Inr (\<lparr>Event = [], Members = [], OwnerID = 0\<rparr>, Some UnmarshalError) \<and>
   (\<exists>lb e. buildLeaderboard sampleCodec ''<!DOCTYPE html>'' = Inr (lb, Some e)) \<and>
   buildLeaderboard sampleCodec ''{}'' = Inr (\<lparr>Event = [], Members = [], OwnerID = 0\<rparr>, None)"
proof -
  have "buildLeaderboard sampleCodec ''<!DOCTYPE html>'' =
     Inr (\<lparr>Event = [], Members = [], OwnerID = 0\<rparr>, Some UnmarshalError)"
    by (simp add: buildLeaderboard_def corrupt_body)
  moreover have "GetObject (JObject []) ''members'' = None"
    by (simp add: GetObject_def)
  ultimately show ?thesis
    using buildLeaderboard_fails_iff [of sampleCodec "''<!DOCTYPE html>''" "[]"]
      buildLeaderboard_fails_iff [of sampleCodec "''{}''" "[]"]
    by (simp add: corrupt_body sampleCodec_sel)
qed

lemma diffBodies_empty: "diffBodies c [] currBody = ([], None)"
  by (simp add: diffBodies_def)

lemma saveCache_calls:
  "filter is_Send (snd (saveCache c w currBody st)) = []"
  "filter is_Build (snd (saveCache c w currBody st)) = []"
  "lastBody (fst (saveCache c w currBody st)) = lastBody st"
  by (simp_all add: saveCache_def Let_def)

lemma saveCache_file:
  "cacheFile (fst (saveCache c w currBody st)) =
     (if \<not> marshalOK w then cacheFile st
      else if writeOK w then Some (stamp w, ReadBack c currBody) else leftover w)"
  "marshalOK w \<Longrightarrow> CallWriteFile (stamp w) currBody \<in> set (snd (saveCache c w currBody st))"
  by (simp_all add: saveCache_def Let_def)

lemma refresh_downloaded:
  assumes "\<not> tooSoon w st" and "download w = Some b"
  shows "refresh c w st =
     ((fst (saveCache c w b st))\<lparr>lastBody := b\<rparr>,
      CallDownload # snd (saveCache c w b st) @ fst (diffBodies c (lastBody st) b),
      snd (diffBodies c (lastBody st) b))"
  using assms by (simp add: refresh_def case_prod_beta)

lemma refresh_idle:
  "tooSoon w st \<Longrightarrow> refresh c w st = (st, [LogTooSoon], None)"
  "\<not> tooSoon w st \<Longrightarrow> download w = None \<Longrightarrow>
     refresh c w st = (st, [CallDownload, LogDownloadError], None)"
  by (simp_all add: refresh_def)

lemma pollWorld_sel:
  "since (pollWorld now body) = sinceAt now" "download (pollWorld now body) = Some body"
  "stamp (pollWorld now body) = now + 1" "marshalOK (pollWorld now body)"
  "writeOK (pollWorld now body)" "leftover (pollWorld now body) = None"
  by (simp_all add: pollWorld_def)

lemma readBack_samples:
  "ReadBack sampleCodec currentDoc = currentDoc"
  "ReadBack sampleCodec ''<!DOCTYPE html>'' = ''<!DOCTYPE html>''"
  by (simp_all add: sampleCodec_def currentDoc_def)

lemma corruptState_sel:
  "lastRead corruptState = 1701400000" "lastBody corruptState = ''<!DOCTYPE html>''"
  "cacheFile corruptState = Some (1701400000, ''<!DOCTYPE html>'')"
  by (simp_all add: corruptState_def initialState_def)

lemma first_polls_run:
  "\<not> tooSoon firstWorld (initialState None)" "\<not> tooSoon firstWorld corruptState"
  by (simp_all add: tooSoon_def firstWorld_def pollWorld_sel sinceAt_def initialState_def
      corruptState_sel)

lemma firstWorld_sel:
  "download firstWorld = Some currentDoc" "stamp firstWorld = 1701410001"
  "marshalOK firstWorld" "writeOK firstWorld"
  by (simp_all add: firstWorld_def pollWorld_sel)

text \<open>
  C4, as stated, fails: on a first run without a cache file, with a download of three
  members, the cycle saves the body and sends nothing.
\<close>

theorem first_run_counterexample:
  "initialState None = \<lparr>lastRead = 0, lastBody = [], cacheFile = None\<rparr> \<and>
   buildLeaderboard sampleCodec currentDoc = Inr (currentBoard, None) \<and>
   length (Members currentBoard) = 3 \<and>
   refresh sampleCodec firstWorld (initialState None) =
     (\<lparr>lastRead = 1701410001, lastBody = currentDoc, cacheFile = Some (1701410001, currentDoc)\<rparr>,
      [CallDownload, CallWriteFile 1701410001 currentDoc], None)"
proof -
  have "refresh sampleCodec firstWorld (initialState None) =
     (\<lparr>lastRead = 1701410001, lastBody = currentDoc, cacheFile = Some (1701410001, currentDoc)\<rparr>,
      [CallDownload, CallWriteFile 1701410001 currentDoc], None)"
    by (simp only: refresh_downloaded [OF first_polls_run(1) firstWorld_sel(1)])
       (simp add: saveCache_def firstWorld_sel readBack_samples initialState_def
          diffBodies_empty)
  then show ?thesis
    by (simp add: initialState_def build_samples sample_members)
qed

text \<open>
  C4, amended. A cycle that starts with an empty \<^verbatim>\<open>lastBody\<close> sends no notification
  of either kind, parses nothing and does not panic; when its download succeeds, the
  downloaded body becomes \<^verbatim>\<open>lastBody\<close>, the write of it to the cache file is among the
  calls (when it can be encoded), and the cache file holds what reads back from that
  write when the write succeeds.
\<close>

theorem first_run_sends_nothing:
  assumes "lastBody st = []"
  shows "filter is_Send (fst (snd (refresh c w st))) = [] \<and>
         filter is_Build (fst (snd (refresh c w st))) = [] \<and>
         snd (snd (refresh c w st)) = None \<and>
         (\<not> tooSoon w st \<and> download w = Some currBody \<longrightarrow>
            lastBody (fst (refresh c w st)) = currBody \<and>
            (marshalOK w \<longrightarrow> CallWriteFile (stamp w) currBody \<in> set (fst (snd (refresh c w st)))) \<and>
            cacheFile (fst (refresh c w st)) =
              (if \<not> marshalOK w then cacheFile st
               else if writeOK w then Some (stamp w, ReadBack c currBody) else leftover w))"
proof (cases "tooSoon w st")
  case True
  then show ?thesis by (simp add: refresh_idle)
next
  case False
  show ?thesis
  proof (cases "download w")
    case None
    with False show ?thesis by (simp add: refresh_idle)
  next
    case (Some b)
    show ?thesis
      using assms Some
      by (simp add: refresh_downloaded [OF False Some] diffBodies_empty saveCache_calls
          saveCache_file)
  qed
qed

theorem first_run_sends_nothing_witness:
  "lastBody (initialState None) = [] \<and>
   filter is_Send (fst (snd (refresh sampleCodec firstWorld (initialState None)))) = [] \<and>
   lastBody (fst (refresh sampleCodec firstWorld (initialState None))) = currentDoc \<and>
   CallWriteFile 1701410001 currentDoc \<in>
     set (fst (snd (refresh sampleCodec firstWorld (initialState None)))) \<and>
   cacheFile (fst (refresh sampleCodec firstWorld (initialState None))) =
     Some (1701410001, currentDoc)"
proof -
  have e: "lastBody (initialState None) = []" by (simp add: initialState_def)
  show ?thesis
    using first_run_sends_nothing [OF e, of sampleCodec firstWorld currentDoc] e
      first_polls_run(1)
    by (simp add: firstWorld_sel readBack_samples)
qed

section \<open>The cache file and the previous body\<close>

lemma diffBodies_no_write: "filter is_WriteFile (fst (diffBodies c a b)) = []"
  by (simp add: diffBodies_def filter_empty_conv split: sum.splits option.splits prod.splits)

text \<open>
  C9. In a cycle whose download succeeds, the calls split into a first part without any
  call of the parser, which holds the write of the downloaded body to the cache file
  (when the body can be encoded), and a rest without any write. The cache file after the
  cycle does not depend on the parser: whenever encoding and writing succeed it holds
  what reads back from the written body, whatever parsing the cached body gives, the same
  under any other parser, and a process started from it has that as its previous body.
  This is the downloaded body itself when the encoding gives it back unchanged (a body
  of valid UTF-8). A failed write is logged; the file is then what the failure left of
  it.
\<close>

theorem cache_saved_before_parsing:
  assumes "\<not> tooSoon w st" and "download w = Some currBody"
  shows "(\<exists>pre post. fst (snd (refresh c w st)) = pre @ post \<and>
            filter is_Build pre = [] \<and> filter is_WriteFile post = [] \<and>
            (marshalOK w \<longrightarrow> CallWriteFile (stamp w) currBody \<in> set pre)) \<and>
         cacheFile (fst (refresh c w st)) =
           (if \<not> marshalOK w then cacheFile st
            else if writeOK w then Some (stamp w, ReadBack c currBody) else leftover w) \<and>
         (\<forall>c'. ReadBack c' = ReadBack c \<longrightarrow>
            cacheFile (fst (refresh c' w st)) = cacheFile (fst (refresh c w st))) \<and>
         (marshalOK w \<and> writeOK w \<longrightarrow>
            lastBody (initialState (cacheFile (fst (refresh c w st)))) = ReadBack c currBody) \<and>
         (marshalOK w \<and> writeOK w \<and> ReadBack c currBody = currBody \<longrightarrow>
            cacheFile (fst (refresh c w st)) = Some (stamp w, currBody) \<and>
            lastBody (initialState (cacheFile (fst (refresh c w st)))) = currBody)"
proof -
  let ?pre = "CallDownload # snd (saveCache c w currBody st)"
  let ?post = "fst (diffBodies c (lastBody st) currBody)"
  have "fst (snd (refresh c w st)) = ?pre @ ?post"
    by (simp add: refresh_downloaded [OF assms])
  moreover have "filter is_Build ?pre = []" by (simp add: saveCache_calls)
  moreover have "filter is_WriteFile ?post = []" by (rule diffBodies_no_write)
  moreover have "marshalOK w \<longrightarrow> CallWriteFile (stamp w) currBody \<in> set ?pre"
    by (simp add: saveCache_file)
  ultimately have order: "\<exists>pre post. fst (snd (refresh c w st)) = pre @ post \<and>
            filter is_Build pre = [] \<and> filter is_WriteFile post = [] \<and>
            (marshalOK w \<longrightarrow> CallWriteFile (stamp w) currBody \<in> set pre)"
    by blast
  have saved: "cacheFile (fst (refresh k w st)) =
           (if \<not> marshalOK w then cacheFile st
            else if writeOK w then Some (stamp w, ReadBack k currBody) else leftover w)" for k
    by (simp add: refresh_downloaded [OF assms] saveCache_file)
  have same: "\<forall>c'. ReadBack c' = ReadBack c \<longrightarrow>
            cacheFile (fst (refresh c' w st)) = cacheFile (fst (refresh c w st))"
    by (simp add: saved)
  have reread: "marshalOK w \<and> writeOK w \<longrightarrow>
            lastBody (initialState (cacheFile (fst (refresh c w st)))) = ReadBack c currBody"
    by (simp add: saved initialState_def)
  have unchanged: "marshalOK w \<and> writeOK w \<and> ReadBack c currBody = currBody \<longrightarrow>
            cacheFile (fst (refresh c w st)) = Some (stamp w, currBody) \<and>
            lastBody (initialState (cacheFile (fst (refresh c w st)))) = currBody"
    by (simp add: saved initialState_def)
  from order saved [of c] same reread unchanged show ?thesis by blast
qed

lemma build_corrupt:
  "buildLeaderboard sampleCodec ''<!DOCTYPE html>'' =
     Inr (\<lparr>Event = [], Members = [], OwnerID = 0\<rparr>, Some UnmarshalError)"
  by (simp add: buildLeaderboard_def corrupt_body)

lemma corrupt_cycle:
  "refresh sampleCodec firstWorld corruptState =
     (\<lparr>lastRead = 1701410001, lastBody = currentDoc, cacheFile = Some (1701410001, currentDoc)\<rparr>,
      [CallDownload, CallWriteFile 1701410001 currentDoc,
       CallBuildLeaderboard ''<!DOCTYPE html>'', LogCachedBodyError], None)"
  by (simp only: refresh_downloaded [OF first_polls_run(2) firstWorld_sel(1)])
     (simp add: saveCache_def firstWorld_sel readBack_samples corruptState_sel diffBodies_def
        build_corrupt corruptState_def initialState_def)

theorem cache_saved_before_parsing_witness:
  "fst (snd (refresh sampleCodec firstWorld corruptState)) =
     [CallDownload, CallWriteFile 1701410001 currentDoc,
      CallBuildLeaderboard ''<!DOCTYPE html>'', LogCachedBodyError] \<and>
   cacheFile (fst (refresh sampleCodec firstWorld corruptState)) = Some (1701410001, currentDoc) \<and>
   lastBody (initialState (cacheFile (fst (refresh sampleCodec firstWorld corruptState)))) =
     currentDoc"
  using cache_saved_before_parsing [OF first_polls_run(2) firstWorld_sel(1), of sampleCodec]
  by (simp add: firstWorld_sel readBack_samples corrupt_cycle)

section \<open>Completions lost by an aborted cycle\<close>

lemma refresh_s_event:
  assumes "n \<in> set (fst (refresh_s lb member dayIdx p partNum))"
  shows "is_PartCompleted n \<and> who n = member \<and> dayNum n = dayIdx + 1 \<and> part n = partNum"
  using assms by (auto simp: refresh_s_def Let_def split: sum.splits)

lemma andThen_event:
  "n \<in> set (fst (andThen a b)) \<Longrightarrow> n \<in> set (fst a) \<or> n \<in> set (fst b)"
  by (cases a; cases b) (auto simp: andThen_def split: option.splits)

lemma dayStep_event:
  assumes "n \<in> set (fst (dayStep lb member lastMember dayIdx day))"
  shows "is_PartCompleted n \<and> who n = member \<and> dayNum n = dayIdx + 1 \<and> 0 \<le> dayIdx \<and>
         completionRecord lastMember dayIdx (part n) = None"
proof -
  from assms consider
      (one) "n \<in> set (fst (case Part1 day of
          None \<Rightarrow> ([], None)
        | Some p \<Rightarrow>
            (case index (CompletionDayLevel lastMember) dayIdx of
               Inl e \<Rightarrow> ([], Some e)
             | Inr lastDay \<Rightarrow>
                 if Part1 lastDay = None then refresh_s lb member dayIdx p 1
                 else ([], None))))"
    | (two) "n \<in> set (fst (case Part2 day of
          None \<Rightarrow> ([], None)
        | Some p \<Rightarrow>
            (case index (CompletionDayLevel lastMember) dayIdx of
               Inl e \<Rightarrow> ([], Some e)
             | Inr lastDay \<Rightarrow>
                 if Part2 lastDay = None then refresh_s lb member dayIdx p 2
                 else ([], None))))"
    unfolding dayStep_def by (auto dest: andThen_event)
  then show ?thesis
  proof cases
    case one
    then obtain p where "0 \<le> dayIdx" "Part1 (CompletionDayLevel lastMember ! nat dayIdx) = None"
      "n \<in> set (fst (refresh_s lb member dayIdx p 1))"
      by (auto simp: index_def split: option.splits sum.splits if_splits)
    then show ?thesis
      using refresh_s_event [of n lb member dayIdx p 1] by (simp add: completionRecord_def)
  next
    case two
    then obtain p where "0 \<le> dayIdx" "Part2 (CompletionDayLevel lastMember ! nat dayIdx) = None"
      "n \<in> set (fst (refresh_s lb member dayIdx p 2))"
      by (auto simp: index_def split: option.splits sum.splits if_splits)
    then show ?thesis
      using refresh_s_event [of n lb member dayIdx p 2] by (simp add: completionRecord_def)
  qed
qed

lemma dayLoop_event:
  "n \<in> set (fst (dayLoop lb member lastMember dayIdx days)) \<Longrightarrow>
     \<exists>j. is_PartCompleted n \<and> who n = member \<and> dayNum n = j + 1 \<and> 0 \<le> j \<and>
         completionRecord lastMember j (part n) = None"
proof (induction days arbitrary: dayIdx)
  case Nil
  then show ?case by simp
next
  case (Cons day days)
  from Cons.prems have "n \<in> set (fst (dayStep lb member lastMember dayIdx day)) \<or>
      n \<in> set (fst (dayLoop lb member lastMember (dayIdx + 1) days))"
    by (auto dest: andThen_event)
  then show ?case
    using dayStep_event [of n lb member lastMember dayIdx day] Cons.IH [of "dayIdx + 1"]
    by blast
qed

lemma memberStep_event:
  assumes "n \<in> set (fst (memberStep previous current member))" and "is_PartCompleted n"
  shows "\<exists>lastMember j. arrayFind (Members previous) (\<lambda>m. ID m = ID (who n)) = Some lastMember \<and>
     dayNum n = j + 1 \<and> 0 \<le> j \<and> completionRecord lastMember j (part n) = None"
proof (cases "arrayFind (Members previous) (\<lambda>m. ID m = ID member)")
  case None
  with assms show ?thesis by (auto simp: memberStep_def)
next
  case (Some lastMember)
  with assms(1) have "n \<in> set (fst (dayLoop current member lastMember 0 (CompletionDayLevel member)))"
    by (simp add: memberStep_def)
  from dayLoop_event [OF this] Some show ?thesis by auto
qed

lemma memberLoop_event:
  "n \<in> set (fst (memberLoop previous current ms)) \<Longrightarrow> is_PartCompleted n \<Longrightarrow>
   \<exists>lastMember j. arrayFind (Members previous) (\<lambda>m. ID m = ID (who n)) = Some lastMember \<and>
     dayNum n = j + 1 \<and> 0 \<le> j \<and> completionRecord lastMember j (part n) = None"
proof (induction ms)
  case Nil
  then show ?case by simp
next
  case (Cons m ms)
  from Cons.prems(1) have "n \<in> set (fst (memberStep previous current m)) \<or>
      n \<in> set (fst (memberLoop previous current ms))"
    by (auto dest: andThen_event)
  then show ?case
    using memberStep_event [of n previous current m] Cons.IH Cons.prems(2) by blast
qed

lemma notifies_iff:
  "notifies calls i d partNum \<longleftrightarrow>
     (\<exists>n. CallSendNotification n \<in> set calls \<and> is_PartCompleted n \<and> ID (who n) = i \<and>
          dayNum n = int d + 1 \<and> part n = partNum)"
proof
  assume "notifies calls i d partNum"
  then obtain c where c: "c \<in> set calls" "is_Send c" "is_PartCompleted (sentNotification c)"
    "ID (who (sentNotification c)) = i" "dayNum (sentNotification c) = int d + 1"
    "part (sentNotification c) = partNum"
    by (auto simp: notifies_def)
  from c(2) have "c = CallSendNotification (sentNotification c)" by (cases c) simp_all
  with c show "\<exists>n. CallSendNotification n \<in> set calls \<and> is_PartCompleted n \<and> ID (who n) = i \<and>
          dayNum n = int d + 1 \<and> part n = partNum"
    by metis
next
  assume "\<exists>n. CallSendNotification n \<in> set calls \<and> is_PartCompleted n \<and> ID (who n) = i \<and>
          dayNum n = int d + 1 \<and> part n = partNum"
  then obtain n where "CallSendNotification n \<in> set calls" "is_PartCompleted n" "ID (who n) = i"
    "dayNum n = int d + 1" "part n = partNum"
    by blast
  then show "notifies calls i d partNum"
    unfolding notifies_def by (intro bexI [of _ "CallSendNotification n"]) simp_all
qed

lemma memberLoop_silent:
  assumes "holdsRecord previous i d partNum"
  shows "\<not> notifies (map CallSendNotification (fst (memberLoop previous current ms))) i d partNum"
proof
  assume "notifies (map CallSendNotification (fst (memberLoop previous current ms))) i d partNum"
  then obtain n where n: "n \<in> set (fst (memberLoop previous current ms))" "is_PartCompleted n"
    "ID (who n) = i" "dayNum n = int d + 1" "part n = partNum"
    by (auto simp: notifies_iff)
  from memberLoop_event [OF n(1,2)] obtain lastMember j where
    found: "arrayFind (Members previous) (\<lambda>m. ID m = ID (who n)) = Some lastMember"
    and j: "dayNum n = j + 1" "completionRecord lastMember j (part n) = None"
    by blast
  from found have "lastMember \<in> set (Members previous)" "ID lastMember = i"
    using n(3) by (auto dest: arrayFind_Some)
  with assms have "completionRecord lastMember (int d) partNum \<noteq> None"
    by (simp add: holdsRecord_def)
  moreover from j n(4,5) have "completionRecord lastMember (int d) partNum = None" by simp
  ultimately show False by simp
qed

lemma notifies_append:
  "notifies (xs @ ys) i d partNum \<longleftrightarrow> notifies xs i d partNum \<or> notifies ys i d partNum"
  by (auto simp: notifies_iff)

lemma notifies_no_send: "filter is_Send calls = [] \<Longrightarrow> \<not> notifies calls i d partNum"
  by (auto simp: notifies_iff filter_empty_conv)

lemma diffBodies_silent:
  assumes "\<forall>lb. buildLeaderboard c a = Inr (lb, None) \<longrightarrow> holdsRecord lb i d partNum"
  shows "\<not> notifies (fst (diffBodies c a b)) i d partNum"
proof (cases "\<exists>lb lb'. buildLeaderboard c a = Inr (lb, None) \<and>
    buildLeaderboard c b = Inr (lb', None) \<and> length a \<noteq> 0")
  case True
  then obtain lb lb' where parsed: "buildLeaderboard c a = Inr (lb, None)"
    "buildLeaderboard c b = Inr (lb', None)" "length a \<noteq> 0" by blast
  then have "fst (diffBodies c a b) =
      [CallBuildLeaderboard a, CallBuildLeaderboard b] @
      map CallSendNotification (fst (memberLoop lb lb' (Members lb')))"
    by (simp add: diffBodies_def case_prod_beta)
  moreover from assms parsed(1) have "holdsRecord lb i d partNum" by blast
  ultimately show ?thesis
    using memberLoop_silent [of lb i d partNum lb' "Members lb'"]
    by (simp add: notifies_append) (simp add: notifies_iff)
next
  case False
  then have "filter is_Send (fst (diffBodies c a b)) = []"
    by (auto simp: diffBodies_def split: sum.splits option.splits)
  then show ?thesis by (rule notifies_no_send)
qed

lemma refresh_silent:
  assumes inv: "\<forall>lb. buildLeaderboard c (lastBody st) = Inr (lb, None) \<longrightarrow>
        holdsRecord lb i d partNum"
    and good: "\<forall>b lb. download w = Some b \<and> buildLeaderboard c b = Inr (lb, None) \<longrightarrow>
        holdsRecord lb i d partNum"
  shows "\<not> notifies (fst (snd (refresh c w st))) i d partNum \<and>
     (\<forall>lb. buildLeaderboard c (lastBody (fst (refresh c w st))) = Inr (lb, None) \<longrightarrow>
        holdsRecord lb i d partNum)"
proof (cases "tooSoon w st")
  case True
  with inv show ?thesis by (simp add: refresh_idle notifies_iff)
next
  case False
  show ?thesis
  proof (cases "download w")
    case None
    with False inv show ?thesis by (simp add: refresh_idle notifies_iff)
  next
    case (Some b)
    have calls: "fst (snd (refresh c w st)) =
        [CallDownload] @ snd (saveCache c w b st) @ fst (diffBodies c (lastBody st) b)"
      and last: "lastBody (fst (refresh c w st)) = b"
      by (simp_all add: refresh_downloaded [OF False Some])
    have "\<not> notifies (snd (saveCache c w b st)) i d partNum"
      by (intro notifies_no_send saveCache_calls)
    moreover have "\<not> notifies [CallDownload] i d partNum" by (simp add: notifies_iff)
    moreover have "\<not> notifies (fst (diffBodies c (lastBody st) b)) i d partNum"
      by (rule diffBodies_silent [OF inv])
    ultimately have "\<not> notifies (fst (snd (refresh c w st))) i d partNum"
      unfolding calls notifies_append by blast
    moreover from good Some have
      "\<forall>lb. buildLeaderboard c b = Inr (lb, None) \<longrightarrow> holdsRecord lb i d partNum"
      by blast
    ultimately show ?thesis unfolding last by blast
  qed
qed

lemma run_silent:
  assumes "\<forall>w \<in> set ws. \<forall>b lb. download w = Some b \<and> buildLeaderboard c b = Inr (lb, None) \<longrightarrow>
        holdsRecord lb i d partNum"
  shows "\<forall>lb. buildLeaderboard c (lastBody st) = Inr (lb, None) \<longrightarrow> holdsRecord lb i d partNum \<Longrightarrow>
     \<forall>calls \<in> set (run c recovers ws st). \<not> notifies calls i d partNum"
  using assms
proof (induction ws arbitrary: st)
  case Nil
  then show ?case by simp
next
  case (Cons w ws)
  obtain st' calls r where step: "refresh c w st = (st', calls, r)"
    by (cases "refresh c w st")
  have good: "\<forall>b lb. download w = Some b \<and> buildLeaderboard c b = Inr (lb, None) \<longrightarrow>
        holdsRecord lb i d partNum"
    using Cons.prems(2) by auto
  have "\<not> notifies (fst (snd (refresh c w st))) i d partNum \<and>
     (\<forall>lb. buildLeaderboard c (lastBody (fst (refresh c w st))) = Inr (lb, None) \<longrightarrow>
        holdsRecord lb i d partNum)"
    by (rule refresh_silent [OF Cons.prems(1) good])
  then have quiet: "\<not> notifies calls i d partNum"
    and inv': "\<forall>lb. buildLeaderboard c (lastBody st') = Inr (lb, None) \<longrightarrow>
        holdsRecord lb i d partNum"
    unfolding step by simp_all
  have later: "\<forall>w \<in> set ws. \<forall>b lb. download w = Some b \<and> buildLeaderboard c b = Inr (lb, None) \<longrightarrow>
        holdsRecord lb i d partNum"
    using Cons.prems(2) by auto
  have rest: "\<forall>calls \<in> set (run c recovers ws st'). \<not> notifies calls i d partNum"
    by (rule Cons.IH [OF inv' later])
  show ?case
    using quiet rest step by (cases r) simp_all
qed

text \<open>
  C10. In a cycle whose download succeeds, \<^verbatim>\<open>lastBody\<close> is the downloaded body
  afterwards, on every way out. When building the cached or the downloaded body returns
  an error, the cycle sends nothing. And in no later cycle of the daemon is a record
  notified that every parsing download from this cycle on holds: each later cycle that
  gets as far as the member loop compares against a body that already has it. The
  downloads, this one and the later ones, need not parse, and later cycles may abort as
  well.
\<close>

theorem lastBody_replaced_by_download:
  assumes "\<not> tooSoon w st" and "download w = Some currBody"
  shows "lastBody (fst (refresh c w st)) = currBody \<and>
    ((\<exists>lb e. buildLeaderboard c (lastBody st) = Inr (lb, Some e)) \<or>
     (\<exists>lb e. buildLeaderboard c currBody = Inr (lb, Some e)) \<longrightarrow>
       filter is_Send (fst (snd (refresh c w st))) = []) \<and>
    ((\<forall>lb. buildLeaderboard c currBody = Inr (lb, None) \<longrightarrow> holdsRecord lb i d partNum) \<and>
     (\<forall>w' \<in> set ws. \<forall>b lb. download w' = Some b \<and> buildLeaderboard c b = Inr (lb, None) \<longrightarrow>
        holdsRecord lb i d partNum) \<longrightarrow>
     \<not> (\<exists>calls \<in> set (run c recovers ws (fst (refresh c w st))). notifies calls i d partNum))"
proof -
  have last: "lastBody (fst (refresh c w st)) = currBody"
    by (simp add: refresh_downloaded [OF assms])
  have "filter is_Send (fst (snd (refresh c w st))) = []"
    if "(\<exists>lb e. buildLeaderboard c (lastBody st) = Inr (lb, Some e)) \<or>
        (\<exists>lb e. buildLeaderboard c currBody = Inr (lb, Some e))"
    using that
    by (auto simp: refresh_downloaded [OF assms] saveCache_calls
        diffBodies_error_left diffBodies_error_right)
  moreover have "\<not> (\<exists>calls \<in> set (run c recovers ws (fst (refresh c w st))). notifies calls i d partNum)"
    if "\<forall>lb. buildLeaderboard c currBody = Inr (lb, None) \<longrightarrow> holdsRecord lb i d partNum"
      "\<forall>w' \<in> set ws. \<forall>b lb. download w' = Some b \<and> buildLeaderboard c b = Inr (lb, None) \<longrightarrow>
        holdsRecord lb i d partNum"
    using run_silent [OF that(2), of "fst (refresh c w st)" recovers] that(1) last by auto
  ultimately show ?thesis using last by blast
qed

lemma holds_amy_part2: "holdsRecord currentBoard 7 0 2"
  by (simp add: holdsRecord_def sample_members sample_ids sample_records_day1)

lemma later_worlds_sel:
  "download pageWorld = Some ''<!DOCTYPE html>''" "download secondWorld = Some currentDoc"
  "download thirdWorld = Some currentDoc"
  by (simp_all add: pageWorld_def secondWorld_def thirdWorld_def pollWorld_sel)

lemma same_board_silent: "memberLoop currentBoard currentBoard (Members currentBoard) = ([], None)"
  using memberLoop_diff [OF sample_tables(2) sample_tables(2) sample_current_inv(1)]
  by (simp add: diff_same sample_current_inv(2))

lemma later_polls_run:
  "\<not> tooSoon pageWorld \<lparr>lastRead = 1701410001, lastBody = a, cacheFile = f\<rparr>"
  "\<not> tooSoon secondWorld \<lparr>lastRead = 1701410901, lastBody = a, cacheFile = f\<rparr>"
  "\<not> tooSoon thirdWorld \<lparr>lastRead = 1701411801, lastBody = a, cacheFile = f\<rparr>"
  by (simp_all add: tooSoon_def pageWorld_def secondWorld_def thirdWorld_def pollWorld_sel
      sinceAt_def)

lemma later_cycles:
  "run sampleCodec False [pageWorld, secondWorld, thirdWorld]
     (fst (refresh sampleCodec firstWorld corruptState)) =
   [[CallDownload, CallWriteFile 1701410901 ''<!DOCTYPE html>'',
     CallBuildLeaderboard currentDoc, CallBuildLeaderboard ''<!DOCTYPE html>'',
     LogDownloadedBodyError],
    [CallDownload, CallWriteFile 1701411801 currentDoc,
     CallBuildLeaderboard ''<!DOCTYPE html>'', LogCachedBodyError],
    [CallDownload, CallWriteFile 1701412701 currentDoc,
     CallBuildLeaderboard currentDoc, CallBuildLeaderboard currentDoc]]"
proof -
  have one: "refresh sampleCodec pageWorld
      \<lparr>lastRead = 1701410001, lastBody = currentDoc, cacheFile = Some (1701410001, currentDoc)\<rparr> =
     (\<lparr>lastRead = 1701410901, lastBody = ''<!DOCTYPE html>'',
        cacheFile = Some (1701410901, ''<!DOCTYPE html>'')\<rparr>,
      [CallDownload, CallWriteFile 1701410901 ''<!DOCTYPE html>'',
       CallBuildLeaderboard currentDoc, CallBuildLeaderboard ''<!DOCTYPE html>'',
       LogDownloadedBodyError], None)"
    by (simp only: refresh_downloaded [OF later_polls_run(1) later_worlds_sel(1)])
       (simp add: saveCache_def pageWorld_def pollWorld_sel readBack_samples diffBodies_def
          build_corrupt build_samples docs_differ)
  have two: "refresh sampleCodec secondWorld
      \<lparr>lastRead = 1701410901, lastBody = ''<!DOCTYPE html>'',
        cacheFile = Some (1701410901, ''<!DOCTYPE html>'')\<rparr> =
     (\<lparr>lastRead = 1701411801, lastBody = currentDoc, cacheFile = Some (1701411801, currentDoc)\<rparr>,
      [CallDownload, CallWriteFile 1701411801 currentDoc,
       CallBuildLeaderboard ''<!DOCTYPE html>'', LogCachedBodyError], None)"
    by (simp only: refresh_downloaded [OF later_polls_run(2) later_worlds_sel(2)])
       (simp add: saveCache_def secondWorld_def pollWorld_sel readBack_samples diffBodies_def
          build_corrupt)
  have three: "refresh sampleCodec thirdWorld
      \<lparr>lastRead = 1701411801, lastBody = currentDoc, cacheFile = Some (1701411801, currentDoc)\<rparr> =
     (\<lparr>lastRead = 1701412701, lastBody = currentDoc, cacheFile = Some (1701412701, currentDoc)\<rparr>,
      [CallDownload, CallWriteFile 1701412701 currentDoc,
       CallBuildLeaderboard currentDoc, CallBuildLeaderboard currentDoc], None)"
    by (simp only: refresh_downloaded [OF later_polls_run(3) later_worlds_sel(3)])
       (simp add: saveCache_def thirdWorld_def pollWorld_sel readBack_samples diffBodies_def
          build_samples docs_differ same_board_silent)
  show ?thesis
    by (simp add: corrupt_cycle one two three)
qed

theorem lastBody_replaced_by_download_witness:
  "lastBody corruptState = ''<!DOCTYPE html>'' \<and>
   lastBody (fst (refresh sampleCodec firstWorld corruptState)) = currentDoc \<and>
   filter is_Send (fst (snd (refresh sampleCodec firstWorld corruptState))) = [] \<and>
   completionRecord amyBefore 0 2 = None \<and>
   completionRecord amyAfter 0 2 = Some (star 1701407400) \<and>
   \<not> (\<exists>calls \<in> set (run sampleCodec False [pageWorld, secondWorld, thirdWorld]
                       (fst (refresh sampleCodec firstWorld corruptState))).
        notifies calls 7 0 2) \<and>
   length (run sampleCodec False [pageWorld, secondWorld, thirdWorld]
             (fst (refresh sampleCodec firstWorld corruptState))) = 3"
proof -
  have now: "\<forall>lb. buildLeaderboard sampleCodec currentDoc = Inr (lb, None) \<longrightarrow>
      holdsRecord lb 7 0 2"
    using holds_amy_part2 by (simp add: build_samples)
  have later: "\<forall>w' \<in> set [pageWorld, secondWorld, thirdWorld].
      \<forall>b lb. download w' = Some b \<and> buildLeaderboard sampleCodec b = Inr (lb, None) \<longrightarrow>
        holdsRecord lb 7 0 2"
    using holds_amy_part2 by (simp add: later_worlds_sel build_samples build_corrupt)
  have aborted: "\<exists>lb e. buildLeaderboard sampleCodec (lastBody corruptState) = Inr (lb, Some e)"
    by (simp add: corruptState_sel build_corrupt)
  from lastBody_replaced_by_download [OF first_polls_run(2) firstWorld_sel(1),
      of sampleCodec 7 0 2 "[pageWorld, secondWorld, thirdWorld]" False] now later aborted
  have "lastBody (fst (refresh sampleCodec firstWorld corruptState)) = currentDoc"
    "filter is_Send (fst (snd (refresh sampleCodec firstWorld corruptState))) = []"
    "\<not> (\<exists>calls \<in> set (run sampleCodec False [pageWorld, secondWorld, thirdWorld]
                       (fst (refresh sampleCodec firstWorld corruptState))).
        notifies calls 7 0 2)"
    by blast+
  moreover have "length (run sampleCodec False [pageWorld, secondWorld, thirdWorld]
             (fst (refresh sampleCodec firstWorld corruptState))) = 3"
    by (simp only: later_cycles) simp
  ultimately show ?thesis
    by (simp add: corruptState_sel sample_records_day1)
qed

end
